theory Spec2Isabelle
  imports Complex_Main "HOL-Library.Word"
begin

section \<open>TermSurf: the page renderer of \<^verbatim>\<open>server.py\<close>\<close>

text \<open>
  A shallow embedding of the rendering pipeline of \<^verbatim>\<open>src/server.py\<close>: the rectangle
  overlap measure \<^verbatim>\<open>rect_iou\<close>, the projection of pixel rectangles onto the character
  grid, the image codec \<^verbatim>\<open>img_bytes_to_ascii\<close>, the canvas \<^verbatim>\<open>TermCanvas\<close> and the
  compositing loop of \<^verbatim>\<open>BrowserSession.load_url\<close>.

  Conventions of the embedding.
  \<^item> Python \<^verbatim>\<open>int\<close> is \<^typ>\<open>int\<close>. Python \<^verbatim>\<open>float\<close> is \<^typ>\<open>real\<close>: every
    floating-point operation is read as the exact operation, so rounding error of
    IEEE doubles is not part of the model.
  \<^item> Python \<^verbatim>\<open>str\<close> is \<^typ>\<open>string\<close>, one \<^typ>\<open>char\<close> per character.
  \<^item> An exception is a value of \<open>error\<close>; a function that can raise returns
    \<open>error + 'a\<close> with \<open>Inl\<close> the exception.
  \<^item> Libraries outside the repository (Playwright, requests, Pillow, CairoSVG,
    BeautifulSoup, \<^verbatim>\<open>textwrap\<close>, \<^verbatim>\<open>urllib\<close>) are fields of the record \<open>env\<close>,
    and every theorem holds for all of their behaviours unless it says otherwise.
\<close>

subsection \<open>Exceptions\<close>

datatype error =
    ZeroDivisionError
  | IndexError
  | ValueError
  | LibraryError string  \<comment> \<open>raised inside an external library; carries \<^verbatim>\<open>str(e)\<close>\<close>

fun str_of_error :: "error \<Rightarrow> string" where
  "str_of_error ZeroDivisionError = ''division by zero''"
| "str_of_error IndexError = ''list index out of range''"
| "str_of_error ValueError = ''value error''"
| "str_of_error (LibraryError m) = m"

definition bind_err :: "error + 'a \<Rightarrow> ('a \<Rightarrow> error + 'b) \<Rightarrow> error + 'b" where
  "bind_err m f = (case m of Inl e \<Rightarrow> Inl e | Inr v \<Rightarrow> f v)"

subsection \<open>Rectangle overlap (\<^verbatim>\<open>rect_iou\<close>, lines 152-165)\<close>

type_synonym rect = "int \<times> int \<times> int \<times> int"

fun rect_iou :: "rect \<Rightarrow> rect \<Rightarrow> real" where
  "rect_iou (ax, ay, aw, ah) (bx, by, bw, bh) =
     (let ax2 = ax + aw; ay2 = ay + ah;
          bx2 = bx + bw; by2 = by + bh;
          ix1 = max ax bx; iy1 = max ay by;
          ix2 = min ax2 bx2; iy2 = min ay2 by2;
          iw = max 0 (ix2 - ix1); ih = max 0 (iy2 - iy1);
          inter = iw * ih
      in if inter = 0 then 0
         else (let area_a = aw * ah; area_b = bw * bh
               in real_of_int inter / real_of_int (max 1 (area_a + area_b - inter))))"

text \<open>Two rectangles are separated when one lies entirely beside, above or below the other.\<close>

definition separated :: "rect \<Rightarrow> rect \<Rightarrow> bool" where
  "separated a b =
     (case a of (ax, ay, aw, ah) \<Rightarrow> case b of (bx, by, bw, bh) \<Rightarrow>
        ax + aw \<le> bx \<or> bx + bw \<le> ax \<or> ay + ah \<le> by \<or> by + bh \<le> ay)"

subsection \<open>Python string operations\<close>

text \<open>
  Whitespace and line boundaries are the ASCII ones: \<^verbatim>\<open>str.strip\<close> removes space,
  \<^verbatim>\<open>\t \n \v \f \r\<close> and \<^verbatim>\<open>\x1c-\x1f\<close>; \<^verbatim>\<open>str.splitlines\<close> breaks at
  \<^verbatim>\<open>\n \r \r\n \v \f \x1c \x1d \x1e\<close>.
\<close>

definition NL :: char where
  "NL = CHR 0x0A"

definition is_space :: "char \<Rightarrow> bool" where
  "is_space c = (c \<in> set [CHR 0x20, CHR 0x09, CHR 0x0A, CHR 0x0B, CHR 0x0C, CHR 0x0D,
                             CHR 0x1C, CHR 0x1D, CHR 0x1E, CHR 0x1F])"

definition is_linebreak :: "char \<Rightarrow> bool" where
  "is_linebreak c = (c \<in> set [CHR 0x0A, CHR 0x0B, CHR 0x0C, CHR 0x0D, CHR 0x1C, CHR 0x1D, CHR 0x1E])"

definition rstrip :: "string \<Rightarrow> string" where
  "rstrip s = rev (dropWhile is_space (rev s))"

definition strip :: "string \<Rightarrow> string" where
  "strip s = dropWhile is_space (rstrip s)"

text \<open>\<^verbatim>\<open>s.strip(chars)\<close> with an explicit character set.\<close>

definition strip_chars :: "char list \<Rightarrow> string \<Rightarrow> string" where
  "strip_chars cs s = dropWhile (\<lambda>c. c \<in> set cs) (rev (dropWhile (\<lambda>c. c \<in> set cs) (rev s)))"

definition lower_char :: "char \<Rightarrow> char" where
  "lower_char c = (let k = (of_char c :: nat) in if 65 \<le> k \<and> k \<le> 90 then char_of (k + 32) else c)"

definition lower :: "string \<Rightarrow> string" where
  "lower s = map lower_char s"

definition startswith :: "string \<Rightarrow> string \<Rightarrow> bool" where
  "startswith p s = (take (length p) s = p)"

definition endswith :: "string \<Rightarrow> string \<Rightarrow> bool" where
  "endswith suf s = (length suf \<le> length s \<and> drop (length s - length suf) s = suf)"

text \<open>\<^verbatim>\<open>sub in s\<close>: \<open>sub\<close> occurs in \<open>s\<close> as a contiguous substring.\<close>

fun str_in :: "string \<Rightarrow> string \<Rightarrow> bool" where
  "str_in sub [] = (sub = [])"
| "str_in sub (c # cs) = (startswith sub (c # cs) \<or> str_in sub cs)"

text \<open>\<^verbatim>\<open>xs[:k]\<close>: a negative \<open>k\<close> counts from the end.\<close>

definition py_take :: "int \<Rightarrow> 'a list \<Rightarrow> 'a list" where
  "py_take k xs = (if k < 0 then take (length xs - nat (- k)) xs else take (nat k) xs)"

fun splitlines_from :: "string \<Rightarrow> string \<Rightarrow> string list" where
  "splitlines_from cur [] = (if cur = [] then [] else [cur])"
| "splitlines_from cur [c] =
     (if is_linebreak c then [cur] else [cur @ [c]])"
| "splitlines_from cur (c # d # cs) =
     (if c = CHR 0x0D \<and> d = CHR 0x0A then cur # splitlines_from [] cs
      else if is_linebreak c then cur # splitlines_from [] (d # cs)
      else splitlines_from (cur @ [c]) (d # cs))"

definition splitlines :: "string \<Rightarrow> string list" where
  "splitlines s = splitlines_from [] s"

fun join :: "string \<Rightarrow> string list \<Rightarrow> string" where
  "join sep [] = []"
| "join sep [l] = l"
| "join sep (l # m # ls) = l @ sep @ join sep (m # ls)"

text \<open>\<^verbatim>\<open>str(n)\<close> for a non-negative integer.\<close>

definition digit :: "nat \<Rightarrow> char" where
  "digit d = char_of (48 + d)"

fun str_of_nat :: "nat \<Rightarrow> string" where
  "str_of_nat n = (if n < 10 then [digit n] else str_of_nat (n div 10) @ [digit (n mod 10)])"

text \<open>\<^verbatim>\<open>enumerate(xs, 1)\<close>.\<close>

definition enumerate1 :: "'a list \<Rightarrow> (nat \<times> 'a) list" where
  "enumerate1 xs = zip [1 ..< Suc (length xs)] xs"

text \<open>\<^verbatim>\<open>xs.index(u)\<close>; \<open>None\<close> where Python raises \<^verbatim>\<open>ValueError\<close>.\<close>

fun index_of :: "'a list \<Rightarrow> 'a \<Rightarrow> nat option" where
  "index_of [] u = None"
| "index_of (v # vs) u = (if v = u then Some 0 else map_option Suc (index_of vs u))"

text \<open>
  \<^verbatim>\<open>xs[i]\<close> for a list of length \<open>n\<close>: the position read, a negative \<open>i\<close> counting from
  the end; \<open>None\<close> where Python raises \<^verbatim>\<open>IndexError\<close>.
\<close>

definition py_index :: "int \<Rightarrow> nat \<Rightarrow> nat option" where
  "py_index i n =
     (let j = (if i < 0 then int n + i else i)
      in if 0 \<le> j \<and> j < int n then Some (nat j) else None)"

text \<open>\<^verbatim>\<open>int(v)\<close> of a float: truncation toward zero.\<close>

definition py_int :: "real \<Rightarrow> int" where
  "py_int v = (if 0 \<le> v then \<lfloor>v\<rfloor> else \<lceil>v\<rceil>)"

subsection \<open>The canvas (\<^verbatim>\<open>TermCanvas\<close>, lines 391-432)\<close>

record canvas =
  cv_W :: int
  cv_lines :: "string list"

definition TermCanvas :: "int \<Rightarrow> canvas" where
  "TermCanvas width_cols = \<lparr>cv_W = width_cols, cv_lines = []\<rparr>"

text \<open>
  \<^verbatim>\<open>_ensure_rows\<close>: the loop appends a row of \<open>W\<close> spaces while there are fewer than
  \<open>rows\<close> rows, so it appends \<open>rows - len(lines)\<close> of them, none if that is negative.
\<close>

definition ensure_rows :: "canvas \<Rightarrow> int \<Rightarrow> canvas" where
  "ensure_rows cv rows =
     cv\<lparr>cv_lines := cv_lines cv @
          replicate (nat (rows - int (length (cv_lines cv)))) (replicate (nat (cv_W cv)) CHR 0x20)\<rparr>"

text \<open>\<^verbatim>\<open>self.lines[r][c] = ch\<close>.\<close>

definition set_cell :: "canvas \<Rightarrow> int \<Rightarrow> int \<Rightarrow> char \<Rightarrow> error + canvas" where
  "set_cell cv r c ch =
     (case py_index r (length (cv_lines cv)) of
        None \<Rightarrow> Inl IndexError
      | Some j \<Rightarrow>
          (case py_index c (length (cv_lines cv ! j)) of
             None \<Rightarrow> Inl IndexError
           | Some k \<Rightarrow> Inr (cv\<lparr>cv_lines := (cv_lines cv)[j := (cv_lines cv ! j)[k := ch]]\<rparr>)))"

text \<open>
  The inner loop of both paint operations: \<^verbatim>\<open>for i, ch in enumerate(s)\<close> writes
  \<open>ch\<close> at column \<open>left_col + i\<close> when that column is on the canvas.
\<close>

fun draw_chars :: "canvas \<Rightarrow> int \<Rightarrow> int \<Rightarrow> string \<Rightarrow> error + canvas" where
  "draw_chars cv r c [] = Inr cv"
| "draw_chars cv r c (ch # s) =
     bind_err (if 0 \<le> c \<and> c < cv_W cv then set_cell cv r c ch else Inr cv)
       (\<lambda>cv'. draw_chars cv' r (c + 1) s)"

text \<open>The line as \<^verbatim>\<open>draw_text_block\<close> writes it: bold markers added, then cut to the width.\<close>

definition marked_line :: "bool \<Rightarrow> int \<Rightarrow> string \<Rightarrow> string" where
  "marked_line bold width_cols line =
     py_take width_cols (if bold then ''**'' @ line @ ''**'' else line)"

fun draw_lines :: "canvas \<Rightarrow> int \<Rightarrow> int \<Rightarrow> int \<Rightarrow> bool \<Rightarrow> string list \<Rightarrow> error + canvas" where
  "draw_lines cv r left_col width_cols bold [] = Inr cv"
| "draw_lines cv r left_col width_cols bold (line # rest) =
     bind_err (draw_chars (ensure_rows cv (r + 1)) r left_col (marked_line bold width_cols line))
       (\<lambda>cv'. draw_lines cv' (r + 1) left_col width_cols bold rest)"

text \<open>
  \<^verbatim>\<open>draw_text_block\<close>. \<open>wrap\<close> stands for
  \<^verbatim>\<open>textwrap.wrap(para, width=width_cols, break_long_words=False, replace_whitespace=False)\<close>.
\<close>

definition wrap_paragraphs :: "(string \<Rightarrow> int \<Rightarrow> string list) \<Rightarrow> int \<Rightarrow> string \<Rightarrow> string list" where
  "wrap_paragraphs wrap width_cols text =
     concat (map (\<lambda>para. let p = rstrip para
                          in if p = [] then [[]]
                             else (case wrap p width_cols of [] \<Rightarrow> [[]] | l # ls \<Rightarrow> l # ls))
                 (splitlines text))"

definition draw_text_block ::
  "(string \<Rightarrow> int \<Rightarrow> string list) \<Rightarrow> canvas \<Rightarrow> int \<Rightarrow> int \<Rightarrow> int \<Rightarrow> string \<Rightarrow> bool \<Rightarrow> error + canvas" where
  "draw_text_block wrap cv top_row left_col width_cols text bold =
     (if width_cols \<le> 5 \<or> text = [] then Inr cv
      else draw_lines cv top_row left_col width_cols bold (wrap_paragraphs wrap width_cols text))"

fun draw_rows :: "canvas \<Rightarrow> int \<Rightarrow> int \<Rightarrow> int \<Rightarrow> string list \<Rightarrow> error + canvas" where
  "draw_rows cv r left_col max_w [] = Inr cv"
| "draw_rows cv r left_col max_w (row # rest) =
     bind_err (draw_chars (ensure_rows cv (r + 1)) r left_col (py_take max_w row))
       (\<lambda>cv'. draw_rows cv' (r + 1) left_col max_w rest)"

definition draw_ascii_image :: "canvas \<Rightarrow> int \<Rightarrow> int \<Rightarrow> string \<Rightarrow> int \<Rightarrow> error + canvas" where
  "draw_ascii_image cv top_row left_col ascii_art max_w =
     (if ascii_art = [] then Inr cv
      else draw_rows cv top_row left_col max_w (splitlines ascii_art))"

definition render :: "canvas \<Rightarrow> string" where
  "render cv = join [NL] (map rstrip (cv_lines cv))"

subsection \<open>\<^verbatim>\<open>compress_blank\<close> (lines 110-116)\<close>

fun compress_lines :: "bool \<Rightarrow> string list \<Rightarrow> string list" where
  "compress_lines prev [] = []"
| "compress_lines prev (l # ls) =
     (let blank = (strip l = [])
      in if blank \<and> prev then compress_lines prev ls else l # compress_lines blank ls)"

definition compress_blank :: "string \<Rightarrow> string" where
  "compress_blank s = join [NL] (compress_lines False (splitlines s))"

subsection \<open>Snapshot nodes and collaborators\<close>

text \<open>
  One entry of the list \<^verbatim>\<open>snapshot_dom\<close> returns: the dictionary
  \<^verbatim>\<open>{tag, x, y, w, h, z, txt, href, src, bg, fw, disp}\<close>, every key present.
\<close>

record node =
  n_tag :: string
  n_x :: int
  n_y :: int
  n_w :: int
  n_h :: int
  n_z :: int
  n_txt :: string
  n_href :: string
  n_src :: string
  n_bg :: string
  n_fw :: string
  n_disp :: string

type_synonym bytes = "8 word list"

text \<open>
  A decoded image in mode \<^verbatim>\<open>L\<close>: its size and the luminance of the pixel at a column
  and a row. \<^verbatim>\<open>getdata()\<close> lists the pixels row by row.
\<close>

record image =
  im_width :: nat
  im_height :: nat
  im_px :: "nat \<Rightarrow> nat \<Rightarrow> 8 word"

definition getdata :: "image \<Rightarrow> 8 word list" where
  "getdata im = concat (map (\<lambda>r. map (\<lambda>c. im_px im c r) [0 ..< im_width im]) [0 ..< im_height im])"

text \<open>What \<^verbatim>\<open>requests.Session.get\<close> returns.\<close>

record response =
  r_url :: string
  r_ok :: bool  \<comment> \<open>\<^verbatim>\<open>raise_for_status()\<close> raises when it is False\<close>
  r_content_type :: string  \<comment> \<open>the header \<^verbatim>\<open>Content-Type\<close>, empty when absent\<close>
  r_content :: bytes
  r_text :: string

text \<open>
  The module's settings and the libraries it calls. A library call that can raise returns
  a sum. \<open>resample im w h\<close> is the pixel function of \<^verbatim>\<open>im.resize((w, h))\<close>, whose size
  is \<open>(w, h)\<close>.
\<close>

record env =
  ROW_ASPECT :: real
  AUTO_IMG_MAX :: int
  ASCII_IMG_W :: int
  HAVE_PIL :: bool
  HAVE_CAIROSVG :: bool
  HAVE_PW :: bool
  wrap :: "string \<Rightarrow> int \<Rightarrow> string list"
  urljoin :: "string \<Rightarrow> string \<Rightarrow> string"
  urldefrag :: "string \<Rightarrow> string"
  urlparse_path :: "string \<Rightarrow> string"
  http_get :: "string \<Rightarrow> error + response"
  svg2png :: "bytes \<Rightarrow> error + bytes"
  image_open :: "bytes \<Rightarrow> error + image"
  resample :: "image \<Rightarrow> nat \<Rightarrow> nat \<Rightarrow> nat \<Rightarrow> nat \<Rightarrow> 8 word"
  snapshot_dom :: "string \<Rightarrow> string \<Rightarrow> error + (node list \<times> string)"
  to_unicode :: "bytes \<Rightarrow> string \<Rightarrow> string"
  soup_imgs :: "string \<Rightarrow> string list"
  soup_anchors :: "string \<Rightarrow> (string \<times> string) list"
  soup_text :: "string \<Rightarrow> string"

text \<open>The fields of \<^verbatim>\<open>BrowserSession\<close> that a page render reads or writes.\<close>

record session =
  user_agent :: string
  width :: int
  js_mode :: bool
  auto_image :: bool
  filter_icons :: bool
  current_url :: "string option"
  full_text :: string
  links :: "string list"
  images :: "string list"
  history :: "string list"
  future :: "string list"

subsection \<open>The image codec (\<^verbatim>\<open>img_bytes_to_ascii\<close>, lines 118-132)\<close>

definition ASCII_RAMP :: string where
  "ASCII_RAMP = ''@%#*+=-:. ''"

definition ramp_char :: "8 word \<Rightarrow> char" where
  "ramp_char p = ASCII_RAMP ! nat (py_int (real (unat p) / 255 * real (length ASCII_RAMP - 1)))"

text \<open>\<^verbatim>\<open>[chars[i:i+w] for i in range(0, len(chars), w)]\<close>, for a positive step.\<close>

function chunks :: "nat \<Rightarrow> 'a list \<Rightarrow> 'a list list" where
  "chunks w xs = (if w = 0 \<or> xs = [] then [] else take w xs # chunks w (drop w xs))"
  by pat_completeness auto
termination
  by (relation "measure (\<lambda>(w, xs). length xs)") auto

declare chunks.simps [simp del]
declare str_of_nat.simps [simp del]

text \<open>The body of the \<^verbatim>\<open>try\<close> block.\<close>

definition ascii_body :: "env \<Rightarrow> bytes \<Rightarrow> int \<Rightarrow> error + string" where
  "ascii_body env b width_arg =
     bind_err (image_open env b) (\<lambda>im.
       let w = max 20 width_arg
       in if im_width im = 0 then Inl ZeroDivisionError
          else
            (let h = max 1 (py_int (real (im_height im) * (real_of_int w / real (im_width im)) * ROW_ASPECT env));
                 im2 = \<lparr>im_width = nat w, im_height = nat h, im_px = resample env im (nat w) (nat h)\<rparr>;
                 pixels = getdata im2;
                 chars = map ramp_char pixels;
                 ls = chunks (nat w) chars
             in Inr (join [NL] ls @ [NL])))"

definition img_bytes_to_ascii :: "env \<Rightarrow> bytes \<Rightarrow> int \<Rightarrow> string" where
  "img_bytes_to_ascii env b width_arg =
     (if \<not> HAVE_PIL env then ''(Pillow not installed; ASCII image disabled)'' @ [NL]
      else (case ascii_body env b width_arg of
              Inr s \<Rightarrow> s
            | Inl e \<Rightarrow> ''(ASCII conversion error: '' @ str_of_error e @
                        '' / If WEBP, ensure Pillow has WEBP support)'' @ [NL]))"

subsection \<open>Fetching an image (\<^verbatim>\<open>fetch_bytes\<close>, lines 134-149; \<^verbatim>\<open>_ascii_for\<close>, lines 463-471)\<close>

definition fetch_bytes :: "env \<Rightarrow> string \<Rightarrow> error + (bytes \<times> string)" where
  "fetch_bytes env url =
     bind_err (http_get env url) (\<lambda>r.
       if \<not> r_ok r then Inl (LibraryError ''HTTP error'')
       else
         (let ctype = lower (r_content_type r); data = r_content r
          in if (str_in ''svg'' ctype \<or> endswith ''.svg'' (lower url)) \<and> HAVE_CAIROSVG env
             then (case svg2png env data of
                     Inr png \<Rightarrow> Inr (png, ''image/png'')
                   | Inl e \<Rightarrow> Inr (data, ctype))
             else Inr (data, ctype)))"

definition ascii_for :: "env \<Rightarrow> string \<Rightarrow> string" where
  "ascii_for env url =
     (case fetch_bytes env url of
        Inl e \<Rightarrow> ''(Image fetch error: '' @ str_of_error e @ '')'' @ [NL]
      | Inr (data, ctype) \<Rightarrow>
          if (str_in ''svg'' ctype \<or> endswith ''.svg'' (lower url)) \<and> \<not> HAVE_CAIROSVG env
          then ''(SVG image skipped: CairoSVG not available) '' @ url @ [NL]
          else img_bytes_to_ascii env data (ASCII_IMG_W env))"

subsection \<open>Predicates on nodes and links (lines 456-488)\<close>

definition is_icon_link :: "env \<Rightarrow> string \<Rightarrow> string \<Rightarrow> bool" where
  "is_icon_link env href text =
     (let p = lower (urlparse_path env href)
      in if list_ex (\<lambda>ext. endswith ext p) [''.png'', ''.jpg'', ''.jpeg'', ''.gif'', ''.webp'', ''.svg'']
         then (if list_ex (\<lambda>k. str_in k p)
                    [''icon'', ''bnr'', ''banner'', ''logo'', ''sns'', ''insta'', ''fb'', ''tiktok'', ''x_'', ''line'']
               then (text = [] \<or> length text \<le> 1)
               else False)
         else False)"

definition should_draw_text_node :: "node \<Rightarrow> bool" where
  "should_draw_text_node n =
     (let txt = strip (n_txt n)
      in if txt = [] then False
         else
           (let tag = lower (n_tag n); disp = lower (n_disp n)
            in if tag \<in> set [''h1'', ''h2'', ''h3'', ''h4'', ''h5'', ''h6'', ''p'', ''li'', ''figcaption'', ''td'', ''th'']
               then True
               else if tag \<in> set [''button'', ''label''] then True
               else if tag = ''a'' then length txt \<ge> 5
               else if tag \<in> set [''div'', ''span'', ''section'', ''article'']
                    then (if disp = ''inline'' then False else length txt \<ge> 30)
               else False))"

subsection \<open>Projection (lines 552-567)\<close>

definition vp_w :: "node list \<Rightarrow> int" where
  "vp_w nodes = Max (set (map (\<lambda>n. n_x n + n_w n) nodes @ [1200]))"

definition scale_x :: "int \<Rightarrow> node list \<Rightarrow> real" where
  "scale_x wd nodes = real_of_int wd / real_of_int (vp_w nodes)"

definition scale_y :: "env \<Rightarrow> int \<Rightarrow> node list \<Rightarrow> real" where
  "scale_y env wd nodes = scale_x wd nodes * ROW_ASPECT env"

definition project :: "real \<Rightarrow> real \<Rightarrow> node \<Rightarrow> rect" where
  "project sx sy n =
     (py_int (real_of_int (n_x n) * sx),
      py_int (real_of_int (n_y n) * sy),
      max 6 (py_int (real_of_int (n_w n) * sx)),
      max 1 (py_int (real_of_int (n_h n) * sy)))"

definition is_bold :: "node \<Rightarrow> bool" where
  "is_bold n = (n_fw n \<in> set [''700'', ''800'', ''900'', ''bold''] \<or> n_tag n \<in> set [''h1'', ''h2'', ''h3''])"

subsection \<open>The compositing loop of \<^verbatim>\<open>load_url\<close> (lines 556-618)\<close>

text \<open>
  The local variables of one render. \<open>requested\<close> is not a variable of the source: it
  records, in order, the URLs handed to \<^verbatim>\<open>_ascii_for\<close>, the network requests of the
  render.
\<close>

record rstate =
  rs_canvas :: canvas
  link_map :: "string list"
  image_map :: "string list"
  link_seen :: "string set"
  img_seen :: "string set"
  auto_img_count :: int
  placed_text_rects :: "(int \<times> int \<times> int \<times> int \<times> string) list"
  requested :: "string list"

definition init_rstate :: "int \<Rightarrow> rstate" where
  "init_rstate wd =
     \<lparr>rs_canvas = TermCanvas wd, link_map = [], image_map = [], link_seen = {}, img_seen = {},
      auto_img_count = 0, placed_text_rects = [], requested = []\<rparr>"

text \<open>
  The registration idiom the loop uses three times (lines 572-575, 587-590, 611-614):
  \<^verbatim>\<open>if u not in seen: seen.add(u); m.append(u)\<close>, then \<^verbatim>\<open>idx = m.index(u) + 1\<close>.
\<close>

definition register :: "string \<Rightarrow> string set \<Rightarrow> string list \<Rightarrow> error + (nat \<times> string set \<times> string list)" where
  "register u seen m =
     (let seen' = (if u \<notin> seen then insert u seen else seen);
          m' = (if u \<notin> seen then m @ [u] else m)
      in case index_of m' u of
           None \<Rightarrow> Inl ValueError
         | Some i \<Rightarrow> Inr (i + 1, seen', m'))"

text \<open>
  The image branch, the same code for an \<^verbatim>\<open>img\<close> tag (lines 571-580) and for a CSS
  background image (lines 586-595): register the source, paint the placeholder, and
  while the budget lasts paint the ASCII art one row below.
\<close>

definition paint_image :: "env \<Rightarrow> session \<Rightarrow> rstate \<Rightarrow> rect \<Rightarrow> string \<Rightarrow> error + rstate" where
  "paint_image env self st r fullsrc =
     (case r of (x, y, w, h) \<Rightarrow>
        bind_err (register fullsrc (img_seen st) (image_map st)) (\<lambda>(idx, seen', m').
        bind_err (draw_text_block (wrap env) (rs_canvas st) y x w (''[IMG '' @ str_of_nat idx @ '']'') False) (\<lambda>cv1.
          let st1 = st\<lparr>img_seen := seen', image_map := m', rs_canvas := cv1\<rparr>
          in if auto_image self \<and> auto_img_count st < AUTO_IMG_MAX env
             then
               (let ascii_art = ascii_for env fullsrc
                in bind_err (draw_ascii_image cv1 (y + 1) x ascii_art (min w (ASCII_IMG_W env))) (\<lambda>cv2.
                     Inr (st1\<lparr>rs_canvas := cv2,
                              auto_img_count := auto_img_count st + 1,
                              requested := requested st @ [fullsrc]\<rparr>)))
             else Inr st1)))"

text \<open>The duplicate test (lines 601-605): the loop over the placed records, with its \<^verbatim>\<open>break\<close>.\<close>

fun is_duplicate :: "rect \<Rightarrow> string \<Rightarrow> (int \<times> int \<times> int \<times> int \<times> string) list \<Rightarrow> bool" where
  "is_duplicate r snippet [] = False"
| "is_duplicate r snippet ((rx, ry, rw, rh, sn) # rest) =
     (if rect_iou r (rx, ry, rw, rh) > 0.65 \<and> (str_in snippet sn \<or> str_in sn snippet) then True
      else is_duplicate r snippet rest)"

text \<open>The text branch (lines 598-618).\<close>

definition paint_text :: "env \<Rightarrow> session \<Rightarrow> rstate \<Rightarrow> rect \<Rightarrow> node \<Rightarrow> error + rstate" where
  "paint_text env self st r n =
     (case r of (x, y, w, h) \<Rightarrow>
        let txt = n_txt n
        in if txt \<noteq> [] \<and> should_draw_text_node n
           then
             (let snippet = take 24 txt
              in if is_duplicate (x, y, w, h) snippet (placed_text_rects st) then Inr st
                 else
                   (let href = n_href n
                    in bind_err
                         (if href \<noteq> [] \<and> \<not> (filter_icons self \<and> is_icon_link env href txt)
                          then bind_err (register href (link_seen st) (link_map st)) (\<lambda>(idx, seen', m').
                                 Inr (txt @ '' ['' @ str_of_nat idx @ '']'',
                                      st\<lparr>link_seen := seen', link_map := m'\<rparr>))
                          else Inr (txt, st))
                         (\<lambda>(txt', st1).
                            bind_err (draw_text_block (wrap env) (rs_canvas st1) y x w txt' (is_bold n)) (\<lambda>cv1.
                              Inr (st1\<lparr>rs_canvas := cv1,
                                       placed_text_rects := placed_text_rects st1 @ [(x, y, w, h, snippet)]\<rparr>)))))
           else Inr st)"

text \<open>\<^verbatim>\<open>n["bg"][4:-1].strip().strip('"').strip("'")\<close>\<close>

definition bg_url :: "string \<Rightarrow> string" where
  "bg_url bg = strip_chars [CHR 0x27] (strip_chars [CHR 0x22] (strip (drop 4 (butlast bg))))"

definition is_img_node :: "node \<Rightarrow> bool" where
  "is_img_node n = (n_tag n = ''img'' \<and> n_src n \<noteq> [])"

definition has_bg_image :: "node \<Rightarrow> bool" where
  "has_bg_image n = startswith ''url('' (n_bg n)"

text \<open>
  One iteration of \<^verbatim>\<open>for n in nodes\<close>. \<open>base\<close> is \<^verbatim>\<open>self.current_url or url\<close>. The
  \<^verbatim>\<open>img\<close> branch ends with \<^verbatim>\<open>continue\<close>; the background-image branch does not, and
  control goes on to the text branch.
\<close>

definition paint_node :: "env \<Rightarrow> session \<Rightarrow> string \<Rightarrow> real \<Rightarrow> real \<Rightarrow> rstate \<Rightarrow> node \<Rightarrow> error + rstate" where
  "paint_node env self base sx sy st n =
     (let r = project sx sy n
      in if is_img_node n then paint_image env self st r (n_src n)
         else bind_err
                (if has_bg_image n
                 then paint_image env self st r (urljoin env base (bg_url (n_bg n)))
                 else Inr st)
                (\<lambda>st1. paint_text env self st1 r n))"

fun composite :: "env \<Rightarrow> session \<Rightarrow> string \<Rightarrow> real \<Rightarrow> real \<Rightarrow> rstate \<Rightarrow> node list \<Rightarrow> error + rstate" where
  "composite env self base sx sy st [] = Inr st"
| "composite env self base sx sy st (n # ns) =
     bind_err (paint_node env self base sx sy st n) (\<lambda>st1. composite env self base sx sy st1 ns)"

subsection \<open>The page text (lines 620-633)\<close>

definition listing :: "string list \<Rightarrow> string list" where
  "listing urls = map (\<lambda>(i, u). ''['' @ str_of_nat i @ ''] <'' @ u @ ''>'') (enumerate1 urls)"

definition page_text :: "string \<Rightarrow> rstate \<Rightarrow> string" where
  "page_text cur st =
     (let ls = [''# '' @ cur]
             @ (if link_map st \<noteq> [] then [[NL] @ ''-- Links --''] @ listing (link_map st) else [])
             @ (if image_map st \<noteq> [] then [[NL] @ ''-- Images --''] @ listing (image_map st) else []);
          body = render (rs_canvas st) @ [NL] @ join [NL] ls @ [NL]
      in compress_blank body)"

subsection \<open>The fallback render (\<^verbatim>\<open>_render_fallback_url\<close>, lines 490-535)\<close>

text \<open>\<^verbatim>\<open>if u not in xs: xs.append(u)\<close> over a sequence of candidates.\<close>

fun append_new :: "string list \<Rightarrow> string list \<Rightarrow> string list" where
  "append_new xs [] = xs"
| "append_new xs (u # us) = append_new (if u \<notin> set xs then xs @ [u] else xs) us"

text \<open>
  The HTTP fetch at the head of the function is not inside any \<^verbatim>\<open>try\<close>: when it raises,
  the function raises. \<open>soup_imgs\<close>, \<open>soup_anchors\<close> and \<open>soup_text\<close> stand for what
  BeautifulSoup extracts from the page: the \<^verbatim>\<open>src\<close> of every \<^verbatim>\<open>img\<close>, the
  \<^verbatim>\<open>href\<close> and stripped text of every \<^verbatim>\<open>a\<close>, and the text of the page.
\<close>

definition render_fallback_url :: "env \<Rightarrow> session \<Rightarrow> string \<Rightarrow> (error + string) \<times> session" where
  "render_fallback_url env self url =
     (case http_get env url of
        Inl e \<Rightarrow> (Inl e, self)
      | Inr r \<Rightarrow>
          (let cur = r_url r;
               html = to_unicode env (r_content r) (r_text r);
               imgs = append_new []
                        (map (\<lambda>src. urldefrag env (urljoin env cur src))
                             (filter (\<lambda>src. src \<noteq> []) (soup_imgs env html)));
               lks = append_new []
                       (map fst
                          (filter (\<lambda>(href, t). \<not> (filter_icons self \<and> is_icon_link env href t))
                             (map (\<lambda>(href, t). (urldefrag env (urljoin env cur href), t))
                                (filter (\<lambda>(href, t). href \<noteq> []) (soup_anchors env html)))));
               text0 = compress_blank (soup_text env html);
               text1 = text0 @ (if lks \<noteq> [] then [NL, NL] @ ''-- Links --'' @ [NL] @ join [NL] (listing lks) else []);
               text2 = text1 @ (if imgs \<noteq> [] then [NL, NL] @ ''-- Images --'' @ [NL] @ join [NL] (listing imgs) else []);
               text3 = text2 @
                 (if auto_image self \<and> imgs \<noteq> []
                  then [NL, NL] @ ''-- Images (ASCII, auto) --'' @ [NL] @
                       concat (map (\<lambda>(i, src). ''[IMG '' @ str_of_nat i @ ''] '' @ src @ [NL] @ ascii_for env src @ [NL])
                                   (enumerate1 (py_take (AUTO_IMG_MAX env) imgs)))
                  else [])
           in (Inr text3,
               self\<lparr>current_url := Some cur, full_text := text3, links := lks, images := imgs\<rparr>)))"

subsection \<open>\<^verbatim>\<open>load_url\<close> (lines 537-636)\<close>

text \<open>The result is the returned text, or the exception that leaves \<^verbatim>\<open>load_url\<close>.\<close>

definition load_url :: "env \<Rightarrow> session \<Rightarrow> string \<Rightarrow> (error + string) \<times> session" where
  "load_url env self0 url =
     (let self = (case current_url self0 of
                    None \<Rightarrow> self0
                  | Some c \<Rightarrow> if c = [] then self0
                              else self0\<lparr>history := history self0 @ [c], future := []\<rparr>)
      in if js_mode self \<and> HAVE_PW env
         then
           (case snapshot_dom env url (user_agent self) of
              Inl e \<Rightarrow> render_fallback_url env self url
            | Inr (nodes, final_url) \<Rightarrow>
                if nodes = [] then render_fallback_url env self url
                else
                  (let self1 = self\<lparr>current_url := Some final_url\<rparr>;
                       sx = scale_x (width self1) nodes;
                       sy = scale_y env (width self1) nodes;
                       base = (if final_url \<noteq> [] then final_url else url)
                   in case composite env self1 base sx sy (init_rstate (width self1)) nodes of
                        Inl e \<Rightarrow> (Inl e, self1)
                      | Inr st \<Rightarrow>
                          (let t = page_text final_url st
                           in (Inr t, self1\<lparr>full_text := t, links := link_map st, images := image_map st\<rparr>))))
         else render_fallback_url env self url)"

subsection \<open>Sample inputs\<close>

text \<open>
  A concrete environment and a node constructor, used to evaluate the model on concrete
  pages. In \<open>sample_env\<close> every network call fails, no image decodes and a paragraph is
  never broken.
\<close>

definition sample_env :: env where
  "sample_env =
     \<lparr>ROW_ASPECT = 13 / 25, AUTO_IMG_MAX = 3, ASCII_IMG_W = 68,
      HAVE_PIL = True, HAVE_CAIROSVG = False, HAVE_PW = True,
      wrap = (\<lambda>p w. [p]),
      urljoin = (\<lambda>base u. u),
      urldefrag = (\<lambda>u. u),
      urlparse_path = (\<lambda>u. u),
      http_get = (\<lambda>u. Inl (LibraryError ''connection refused'')),
      svg2png = (\<lambda>b. Inl (LibraryError ''no cairo'')),
      image_open = (\<lambda>b. Inl (LibraryError ''cannot identify image file'')),
      resample = (\<lambda>im w h c r. 0),
      snapshot_dom = (\<lambda>u ua. Inl (LibraryError ''navigation timeout'')),
      to_unicode = (\<lambda>b t. t),
      soup_imgs = (\<lambda>h. []),
      soup_anchors = (\<lambda>h. []),
      soup_text = (\<lambda>h. h)\<rparr>"

definition mk_node :: "string \<Rightarrow> int \<Rightarrow> int \<Rightarrow> int \<Rightarrow> int \<Rightarrow> string \<Rightarrow> node" where
  "mk_node tag x y w h txt =
     \<lparr>n_tag = tag, n_x = x, n_y = y, n_w = w, n_h = h, n_z = 0, n_txt = txt,
      n_href = [], n_src = [], n_bg = [], n_fw = ''400'', n_disp = ''block''\<rparr>"

text \<open>A decoded image of 20 by 3 black pixels, and an environment that decodes to it.\<close>

definition sample_image :: image where
  "sample_image = \<lparr>im_width = 20, im_height = 3, im_px = (\<lambda>c r. 0)\<rparr>"

definition sample_img_env :: env where
  "sample_img_env = sample_env\<lparr>image_open := (\<lambda>b. Inr sample_image)\<rparr>"

subsection \<open>Notions used to state the properties\<close>

text \<open>
  The rows of ASCII art for a resized image: row \<open>r\<close> holds, at column \<open>c\<close>, the ramp
  character of the resized pixel at \<open>(c, r)\<close>.
\<close>

definition art_rows :: "env \<Rightarrow> image \<Rightarrow> nat \<Rightarrow> nat \<Rightarrow> string list" where
  "art_rows env im w h = map (\<lambda>r. map (\<lambda>c. ramp_char (resample env im w h c r)) [0 ..< w]) [0 ..< h]"

text \<open>
  A canvas is well formed when every row has the canvas width; a paint operation keeps
  the width and never removes a row.
\<close>

definition cv_ok :: "canvas \<Rightarrow> bool" where
  "cv_ok cv = list_all (\<lambda>row. length row = nat (cv_W cv)) (cv_lines cv)"

definition same_canvas_shape :: "canvas \<Rightarrow> canvas \<Rightarrow> bool" where
  "same_canvas_shape cv cv' = (cv_ok cv' \<and> cv_W cv' = cv_W cv \<and> length (cv_lines cv) \<le> length (cv_lines cv'))"

text \<open>
  A registry is consistent when the set of seen URLs is the set of the list and the list
  has no duplicate. \<open>reg_index m u\<close> is the index \<^verbatim>\<open>m.index(u) + 1\<close> that registering
  \<open>u\<close> returns.
\<close>

definition reg_ok :: "string set \<Rightarrow> string list \<Rightarrow> bool" where
  "reg_ok seen m = (seen = set m \<and> distinct m)"

definition reg_index :: "string list \<Rightarrow> string \<Rightarrow> nat" where
  "reg_index m u = (case index_of (append_new m [u]) u of None \<Rightarrow> 0 | Some i \<Rightarrow> i + 1)"

text \<open>
  The image source of a node, if it has one: the \<^verbatim>\<open>src\<close> of an \<^verbatim>\<open>img\<close> tag, or the
  resolved URL of a CSS background image. \<open>image_sources\<close> lists them in paint order.
\<close>

definition image_source :: "env \<Rightarrow> string \<Rightarrow> node \<Rightarrow> string option" where
  "image_source env base n =
     (if is_img_node n then Some (n_src n)
      else if has_bg_image n then Some (urljoin env base (bg_url (n_bg n)))
      else None)"

definition image_sources :: "env \<Rightarrow> string \<Rightarrow> node list \<Rightarrow> string list" where
  "image_sources env base nodes = List.map_filter (image_source env base) nodes"

text \<open>The condition under which the image branch calls \<^verbatim>\<open>_ascii_for\<close> (lines 577, 592).\<close>

definition budget_left :: "env \<Rightarrow> session \<Rightarrow> rstate \<Rightarrow> bool" where
  "budget_left env self st = (auto_image self \<and> auto_img_count st < AUTO_IMG_MAX env)"

text \<open>
  The link a painted text registers (line 610), and the condition under which the text
  branch paints: the node has text, is eligible, and is not judged a duplicate.
\<close>

definition link_target :: "env \<Rightarrow> session \<Rightarrow> node \<Rightarrow> string option" where
  "link_target env self n =
     (if n_href n \<noteq> [] \<and> \<not> (filter_icons self \<and> is_icon_link env (n_href n) (n_txt n))
      then Some (n_href n) else None)"

definition text_painted :: "rstate \<Rightarrow> rect \<Rightarrow> node \<Rightarrow> bool" where
  "text_painted st r n =
     (n_txt n \<noteq> [] \<and> should_draw_text_node n
      \<and> \<not> is_duplicate r (take 24 (n_txt n)) (placed_text_rects st))"

definition placed_record :: "rect \<Rightarrow> node \<Rightarrow> int \<times> int \<times> int \<times> int \<times> string" where
  "placed_record r n = (case r of (x, y, w, h) \<Rightarrow> (x, y, w, h, take 24 (n_txt n)))"

text \<open>The placeholder the image branch paints.\<close>

definition image_label :: "nat \<Rightarrow> string" where
  "image_label idx = ''[IMG '' @ str_of_nat idx @ '']''"

text \<open>The links a painted text registers, as a list, and the text it paints.\<close>

definition link_list :: "env \<Rightarrow> session \<Rightarrow> node \<Rightarrow> string list" where
  "link_list env self n = (case link_target env self n of None \<Rightarrow> [] | Some u \<Rightarrow> [u])"

definition text_label :: "env \<Rightarrow> session \<Rightarrow> rstate \<Rightarrow> node \<Rightarrow> string" where
  "text_label env self st n =
     (case link_target env self n of
        None \<Rightarrow> n_txt n
      | Some u \<Rightarrow> n_txt n @ '' ['' @ str_of_nat (reg_index (link_map st) u) @ '']'')"

text \<open>Both registries consistent; every node's projected row on the canvas.\<close>

definition regs_ok :: "rstate \<Rightarrow> bool" where
  "regs_ok st = (reg_ok (img_seen st) (image_map st) \<and> reg_ok (link_seen st) (link_map st))"

definition rows_on_canvas :: "real \<Rightarrow> node list \<Rightarrow> bool" where
  "rows_on_canvas sy nodes = list_all (\<lambda>n. 0 \<le> real_of_int (n_y n) * sy) nodes"

text \<open>
  The image sources of one node as a list; the condition under which a node's text is
  painted (the \<^verbatim>\<open>img\<close> branch ends with \<^verbatim>\<open>continue\<close>); the sources handed to
  \<^verbatim>\<open>_ascii_for\<close> when \<open>used\<close> units of the budget are spent.
\<close>

definition node_images :: "env \<Rightarrow> string \<Rightarrow> node \<Rightarrow> string list" where
  "node_images env base n = (case image_source env base n of None \<Rightarrow> [] | Some u \<Rightarrow> [u])"

definition text_branch_paints :: "real \<Rightarrow> real \<Rightarrow> rstate \<Rightarrow> node \<Rightarrow> bool" where
  "text_branch_paints sx sy st n = (\<not> is_img_node n \<and> text_painted st (project sx sy n) n)"

definition attempts :: "env \<Rightarrow> session \<Rightarrow> int \<Rightarrow> string list \<Rightarrow> string list" where
  "attempts env self used srcs =
     (if auto_image self then take (nat (AUTO_IMG_MAX env - used)) srcs else [])"

text \<open>A session with the default settings, and image nodes.\<close>

definition sample_session :: session where
  "sample_session =
     \<lparr>user_agent = ''Mozilla/5.0'', width = 110, js_mode = True, auto_image = True,
      filter_icons = True, current_url = None, full_text = [], links = [], images = [],
      history = [], future = []\<rparr>"

definition mk_img :: "string \<Rightarrow> int \<Rightarrow> node" where
  "mk_img src y = (mk_node ''img'' 0 y 240 120 [])\<lparr>n_src := src\<rparr>"

definition four_images :: "node list" where
  "four_images = [mk_img ''a.png'' 0, mk_img ''b.png'' 300, mk_img ''c.png'' 600, mk_img ''d.png'' 900]"

text \<open>
  An anchor node with a link, and a page of five nodes: a link, three images (the
  first and the third with the same source) and the same link again further down.
\<close>

definition link_node :: "string \<Rightarrow> string \<Rightarrow> int \<Rightarrow> node" where
  "link_node txt href y = (mk_node ''a'' 0 y 400 40 txt)\<lparr>n_href := href\<rparr>"

definition sample_page :: "node list" where
  "sample_page =
     [link_node ''Read more'' ''http://example.org/x'' 0,
      mk_img ''a.png'' 100, mk_img ''b.png'' 200, mk_img ''a.png'' 300,
      link_node ''Read more'' ''http://example.org/x'' 400]"

section \<open>Verification\<close>

subsection \<open>Rectangle overlap\<close>

lemma rect_iou_commute: "rect_iou a b = rect_iou b a"
proof -
  obtain ax ay aw ah where a: "a = (ax, ay, aw, ah)" by (cases a) auto
  obtain bx "by" bw bh where b: "b = (bx, by, bw, bh)" by (cases b) auto
  show ?thesis
    unfolding a b by (simp add: Let_def max.commute min.commute add.commute)
qed

lemma inter_le_area:
  fixes aw ah iw ih :: int
  assumes "0 < iw" "0 < ih" "iw \<le> aw" "iw \<le> bw" "ih \<le> ah" "ih \<le> bh"
  shows "iw * ih \<le> aw * ah + bw * bh - iw * ih" "1 \<le> aw * ah + bw * bh - iw * ih"
proof -
  have a: "iw * ih \<le> aw * ah" using assms by (intro mult_mono) auto
  have b: "iw * ih \<le> bw * bh" using assms by (intro mult_mono) auto
  have "0 < iw * ih" using assms by simp
  then have p: "1 \<le> iw * ih" by linarith
  show "iw * ih \<le> aw * ah + bw * bh - iw * ih" using a b by linarith
  show "1 \<le> aw * ah + bw * bh - iw * ih" using a b p by linarith
qed

lemma rect_iou_bounds: "0 \<le> rect_iou a b \<and> rect_iou a b \<le> 1"
proof -
  obtain ax ay aw ah where a: "a = (ax, ay, aw, ah)" by (cases a) auto
  obtain bx "by" bw bh where b: "b = (bx, by, bw, bh)" by (cases b) auto
  define iw where "iw = max 0 (min (ax + aw) (bx + bw) - max ax bx)"
  define ih where "ih = max 0 (min (ay + ah) (by + bh) - max ay by)"
  show ?thesis
  proof (cases "iw * ih = 0")
    case True
    then show ?thesis unfolding a b by (simp add: Let_def iw_def ih_def)
  next
    case False
    have nn: "0 \<le> iw" "0 \<le> ih" by (simp_all add: iw_def ih_def)
    with False have pos: "0 < iw" "0 < ih" by (auto simp: less_le)
    have le: "iw \<le> aw" "iw \<le> bw" "ih \<le> ah" "ih \<le> bh"
      using pos unfolding iw_def ih_def by linarith+
    note u = inter_le_area[OF pos le]
    have eq: "rect_iou a b = real_of_int (iw * ih) / real_of_int (max 1 (aw * ah + bw * bh - iw * ih))"
      using False unfolding a b by (simp add: Let_def iw_def ih_def)
    have m: "max 1 (aw * ah + bw * bh - iw * ih) = aw * ah + bw * bh - iw * ih"
      using u(2) by simp
    have "0 \<le> iw * ih" using nn by simp
    then have "0 \<le> real_of_int (iw * ih)" by linarith
    moreover have "0 \<le> real_of_int (aw * ah + bw * bh - iw * ih)" using u(2) by linarith
    ultimately have "0 \<le> rect_iou a b" unfolding eq m by (rule divide_nonneg_nonneg)
    moreover have "rect_iou a b \<le> 1" unfolding eq m using u
    proof -
      have "0 < real_of_int (aw * ah + bw * bh - iw * ih)" using u(2) by linarith
      moreover have "real_of_int (iw * ih) \<le> real_of_int (aw * ah + bw * bh - iw * ih)"
        using u(1) by linarith
      ultimately show "real_of_int (iw * ih) / real_of_int (aw * ah + bw * bh - iw * ih) \<le> 1"
        by (simp add: divide_le_eq_1)
    qed
    ultimately show ?thesis by simp
  qed
qed

lemma rect_iou_self: "rect_iou (ax, ay, aw, ah) (ax, ay, aw, ah) = (if 0 < aw \<and> 0 < ah then 1 else 0)"
proof (cases "0 < aw \<and> 0 < ah")
  case True
  then have p: "0 < aw * ah" by simp
  then have "max 1 (aw * ah) = aw * ah" by simp
  with True p show ?thesis by (simp add: Let_def)
next
  case False
  then have "max 0 aw * max 0 ah = 0" by (auto simp: max_def)
  with False show ?thesis by (simp add: Let_def)
qed

lemma rect_iou_separated: "separated a b \<Longrightarrow> rect_iou a b = 0"
proof -
  assume s: "separated a b"
  obtain ax ay aw ah where a: "a = (ax, ay, aw, ah)" by (cases a) auto
  obtain bx "by" bw bh where b: "b = (bx, by, bw, bh)" by (cases b) auto
  from s have "max 0 (min (ax + aw) (bx + bw) - max ax bx) = 0 \<or> max 0 (min (ay + ah) (by + bh) - max ay by) = 0"
    unfolding a b separated_def by (auto simp: max_def min_def)
  then show ?thesis unfolding a b by (auto simp: Let_def)
qed

text \<open>
  Claim C5, as the code has it. \<^verbatim>\<open>rect_iou\<close> is symmetric, its value lies between 0 and 1,
  and it is 0 for separated rectangles. A rectangle compared with itself gives 1 exactly
  when its width and height are both positive; a degenerate rectangle (a width or a
  height that is zero or negative) has an empty intersection with itself, and the guard
  \<^verbatim>\<open>if inter == 0: return 0.0\<close> returns 0.
\<close>

theorem rect_iou_properties:
  "rect_iou a b = rect_iou b a
   \<and> 0 \<le> rect_iou a b \<and> rect_iou a b \<le> 1
   \<and> (0 < aw \<and> 0 < ah \<longrightarrow> rect_iou (ax, ay, aw, ah) (ax, ay, aw, ah) = 1)
   \<and> (aw \<le> 0 \<or> ah \<le> 0 \<longrightarrow> rect_iou (ax, ay, aw, ah) (ax, ay, aw, ah) = 0)
   \<and> (separated a b \<longrightarrow> rect_iou a b = 0)"
  using rect_iou_commute[of a b] rect_iou_bounds[of a b] rect_iou_self[of ax ay aw ah]
    rect_iou_separated[of a b]
  by (auto split: if_splits)

theorem rect_iou_properties_witness:
  "rect_iou (0, 0, 4, 2) (2, 0, 4, 2) = rect_iou (2, 0, 4, 2) (0, 0, 4, 2)
   \<and> rect_iou (0, 0, 4, 2) (2, 0, 4, 2) = 1 / 3
   \<and> rect_iou (1, 1, 4, 2) (1, 1, 4, 2) = 1
   \<and> rect_iou (1, 1, 0, 2) (1, 1, 0, 2) = 0
   \<and> separated (0, 0, 4, 2) (4, 0, 4, 2)
   \<and> rect_iou (0, 0, 4, 2) (4, 0, 4, 2) = 0"
  using rect_iou_properties[of "(0, 0, 4, 2)" "(2, 0, 4, 2)" 4 2 1 1]
    rect_iou_properties[of "(0, 0, 4, 2)" "(4, 0, 4, 2)" 0 2 1 1]
  by (simp add: separated_def)

text \<open>The claim as stated asks for 1 on every rectangle; the empty rectangle gives 0.\<close>

theorem rect_iou_degenerate_self_counterexample:
  "rect_iou (0, 0, 0, 0) (0, 0, 0, 0) \<noteq> 1"
  by simp

subsection \<open>Projection\<close>

lemma max_py_int_6: "max 6 (py_int v) = max 6 \<lfloor>v\<rfloor>"
proof (cases "0 \<le> v")
  case True then show ?thesis by (simp add: py_int_def)
next
  case False
  then have "\<lceil>v\<rceil> \<le> 0" "\<lfloor>v\<rfloor> \<le> 0" by simp_all
  with False show ?thesis by (simp add: py_int_def)
qed

lemma max_py_int_1: "max 1 (py_int v) = max 1 \<lfloor>v\<rfloor>"
proof (cases "0 \<le> v")
  case True then show ?thesis by (simp add: py_int_def)
next
  case False
  then have "\<lceil>v\<rceil> \<le> 0" "\<lfloor>v\<rfloor> \<le> 0" by simp_all
  with False show ?thesis by (simp add: py_int_def)
qed

lemma vp_w_ge: "1200 \<le> vp_w nodes"
  unfolding vp_w_def by (rule Max_ge) auto

lemma vp_w_upper: "m \<in> set nodes \<Longrightarrow> n_x m + n_w m \<le> vp_w nodes"
  unfolding vp_w_def by (rule Max_ge) auto

lemma vp_w_attained: "vp_w nodes = 1200 \<or> (\<exists>m\<in>set nodes. vp_w nodes = n_x m + n_w m)"
proof -
  have "Max (set (map (\<lambda>n. n_x n + n_w n) nodes @ [1200])) \<in> set (map (\<lambda>n. n_x n + n_w n) nodes @ [1200])"
    by (rule Max_in) auto
  then show ?thesis unfolding vp_w_def by auto
qed

lemma scale_x_nonneg: "0 \<le> wd \<Longrightarrow> 0 \<le> scale_x wd nodes"
  unfolding scale_x_def using vp_w_ge[of nodes] by simp


lemma sample_vp: "vp_w [mk_node ''div'' 100 50 (- 5) 0 []] = 1200"
  by (simp add: vp_w_def mk_node_def)


subsection \<open>The image codec\<close>

lemma chunks_concat:
  "0 < w \<Longrightarrow> \<forall>row\<in>set rows. length row = w \<Longrightarrow> chunks w (concat rows) = rows"
proof (induction rows)
  case Nil
  then show ?case by (simp add: chunks.simps)
next
  case (Cons row rows)
  then have "row \<noteq> []" by auto
  with Cons show ?case by (subst chunks.simps) simp
qed

lemma join_terminated:
  "rows \<noteq> [] \<Longrightarrow> join sep rows @ sep = concat (map (\<lambda>row. row @ sep) rows)"
  by (induction sep rows rule: join.induct) simp_all

lemma ramp_index_le: "\<lfloor>real (unat (p :: 8 word)) / 255 * 9\<rfloor> \<le> 9"
proof -
  have "unat p < 2 ^ 8" using unsigned_less[of p] by simp
  then have "unat p \<le> 255" by simp
  then have "real (unat p) \<le> real 255" by (rule of_nat_mono)
  then have "real (unat p) / 255 * 9 \<le> 9" by (simp del: of_nat_unat)
  then show ?thesis by (simp add: floor_le_iff del: of_nat_unat)
qed

lemma ramp_char_eq: "ramp_char p = ASCII_RAMP ! nat \<lfloor>real (unat p) / 255 * 9\<rfloor>"
  by (simp add: ramp_char_def py_int_def ASCII_RAMP_def)

lemma ramp_char_in: "ramp_char p \<in> set ASCII_RAMP"
proof -
  have "0 \<le> \<lfloor>real (unat p) / 255 * 9\<rfloor>" by (simp del: of_nat_unat)
  with ramp_index_le[of p] have "nat \<lfloor>real (unat p) / 255 * 9\<rfloor> < 10"
    by linarith
  moreover have "length ASCII_RAMP = 10" by (simp add: ASCII_RAMP_def)
  ultimately have "nat \<lfloor>real (unat p) / 255 * 9\<rfloor> < length ASCII_RAMP" by simp
  then show ?thesis unfolding ramp_char_eq by (rule nth_mem)
qed


lemma ascii_body_ok:
  assumes "image_open env b = Inr im" "0 < im_width im"
    and w: "w = max 20 wd"
    and h: "h = max 1 \<lfloor>real (im_height im) * (real_of_int w / real (im_width im)) * ROW_ASPECT env\<rfloor>"
  shows "ascii_body env b wd = Inr (concat (map (\<lambda>row. row @ [NL]) (art_rows env im (nat w) (nat h))))"
proof -
  have wpos: "0 < nat w" using w by simp
  have hpos: "0 < nat h" using h by simp
  let ?rows = "art_rows env im (nat w) (nat h)"
  have len: "\<forall>row\<in>set ?rows. length row = nat w" by (auto simp: art_rows_def)
  have ne: "?rows \<noteq> []" using hpos by (simp add: art_rows_def)
  have data: "map ramp_char (getdata \<lparr>im_width = nat w, im_height = nat h, im_px = resample env im (nat w) (nat h)\<rparr>)
      = concat ?rows"
    by (simp add: getdata_def art_rows_def map_concat comp_def)
  have "ascii_body env b wd = Inr (join [NL] (chunks (nat w) (map ramp_char
      (getdata \<lparr>im_width = nat w, im_height = nat h, im_px = resample env im (nat w) (nat h)\<rparr>))) @ [NL])"
    unfolding ascii_body_def bind_err_def Let_def h w max_py_int_1 using assms(1,2) by simp
  also have "map ramp_char
      (getdata \<lparr>im_width = nat w, im_height = nat h, im_px = resample env im (nat w) (nat h)\<rparr>)
      = concat ?rows" by (rule data)
  also have "chunks (nat w) (concat ?rows) = ?rows" by (rule chunks_concat[OF wpos len])
  also have "join [NL] ?rows @ [NL] = concat (map (\<lambda>row. row @ [NL]) ?rows)"
    by (rule join_terminated[OF ne])
  finally show ?thesis .
qed


lemma sample_rows: "art_rows sample_img_env sample_image 20 (Suc 0) = [replicate 20 CHR ''@'']"
proof -
  have "ramp_char (0 :: 8 word) = CHR ''@''"
    by (simp add: ramp_char_eq ASCII_RAMP_def)
  then have "map (\<lambda>c :: nat. ramp_char (0 :: 8 word)) [0 ..< 20] = replicate 20 CHR ''@''"
    by (simp add: map_replicate_const)
  then show ?thesis
    by (simp add: art_rows_def sample_img_env_def sample_env_def)
qed

lemma sample_height:
  "max 1 \<lfloor>real (im_height sample_image) * (real_of_int (max 20 20) / real (im_width sample_image))
        * ROW_ASPECT sample_img_env\<rfloor> = 1"
  by (simp add: sample_image_def sample_img_env_def sample_env_def)



lemma ascii_body_last: "ascii_body env b wd = Inr s \<Longrightarrow> s \<noteq> [] \<and> last s = NL"
  by (auto simp: ascii_body_def bind_err_def Let_def split: sum.splits if_splits)

lemma img_bytes_to_ascii_last:
  "img_bytes_to_ascii env b wd \<noteq> [] \<and> last (img_bytes_to_ascii env b wd) = NL"
  using ascii_body_last[of env b wd]
  by (auto simp: img_bytes_to_ascii_def split: sum.splits)

lemma ascii_for_last: "ascii_for env url \<noteq> [] \<and> last (ascii_for env url) = NL"
  using img_bytes_to_ascii_last[of env _ "ASCII_IMG_W env"]
  by (auto simp: ascii_for_def split: sum.splits prod.splits)

lemma ascii_body_decode_error: "image_open env b = Inl e \<Longrightarrow> ascii_body env b wd = Inl e"
  by (simp add: ascii_body_def bind_err_def)



subsection \<open>The canvas: paint operations return when the row is not negative\<close>

lemma bind_err_Inr [simp]: "bind_err (Inr v) f = f v"
  by (simp add: bind_err_def)

lemma bind_err_Inl [simp]: "bind_err (Inl e) f = Inl e"
  by (simp add: bind_err_def)

lemma bind_err_eq_Inr:
  "bind_err m f = Inr r \<longleftrightarrow> (\<exists>v. m = Inr v \<and> f v = Inr r)"
  by (cases m) simp_all

lemma ensure_rows_ok:
  "cv_ok cv \<Longrightarrow> cv_ok (ensure_rows cv rows) \<and> cv_W (ensure_rows cv rows) = cv_W cv
     \<and> length (cv_lines cv) \<le> length (cv_lines (ensure_rows cv rows))
     \<and> rows \<le> int (length (cv_lines (ensure_rows cv rows)))"
  by (auto simp: cv_ok_def ensure_rows_def list_all_iff)

lemma set_cell_ok:
  assumes "cv_ok cv" "0 \<le> r" "r < int (length (cv_lines cv))" "0 \<le> c" "c < cv_W cv"
  shows "\<exists>cv'. set_cell cv r c ch = Inr cv' \<and> cv_ok cv' \<and> cv_W cv' = cv_W cv
           \<and> length (cv_lines cv') = length (cv_lines cv)"
proof -
  have r: "py_index r (length (cv_lines cv)) = Some (nat r)"
    using assms by (simp add: py_index_def)
  have "nat r < length (cv_lines cv)" using assms by simp
  then have "cv_lines cv ! nat r \<in> set (cv_lines cv)" by (rule nth_mem)
  then have len: "length (cv_lines cv ! nat r) = nat (cv_W cv)"
    using assms(1) by (simp add: cv_ok_def list_all_iff)
  have c: "py_index c (length (cv_lines cv ! nat r)) = Some (nat c)"
    using assms len by (simp add: py_index_def)
  have "cv_ok (cv\<lparr>cv_lines := (cv_lines cv)[nat r := (cv_lines cv ! nat r)[nat c := ch]]\<rparr>)"
    using assms(1) len by (auto simp: cv_ok_def list_all_iff dest!: set_update_subset_insert[THEN subsetD])
  then show ?thesis by (simp add: set_cell_def r c)
qed

lemma draw_chars_ok:
  "cv_ok cv \<Longrightarrow> 0 \<le> r \<Longrightarrow> r < int (length (cv_lines cv)) \<Longrightarrow>
   \<exists>cv'. draw_chars cv r c s = Inr cv' \<and> cv_ok cv' \<and> cv_W cv' = cv_W cv
           \<and> length (cv_lines cv') = length (cv_lines cv)"
proof (induction s arbitrary: cv c)
  case Nil
  then show ?case by simp
next
  case (Cons ch s)
  show ?case
  proof (cases "0 \<le> c \<and> c < cv_W cv")
    case True
    with Cons.prems set_cell_ok[of cv r c ch]
    obtain cv1 where s: "set_cell cv r c ch = Inr cv1" "cv_ok cv1" "cv_W cv1 = cv_W cv"
      "length (cv_lines cv1) = length (cv_lines cv)" by auto
    with Cons.IH[of cv1 "c + 1"] Cons.prems True show ?thesis by auto
  next
    case False
    with Cons.IH[of cv "c + 1"] Cons.prems show ?thesis by auto
  qed
qed

lemma draw_lines_ok:
  "cv_ok cv \<Longrightarrow> 0 \<le> r \<Longrightarrow>
   \<exists>cv'. draw_lines cv r left_col width_cols bold ls = Inr cv' \<and> same_canvas_shape cv cv'"
proof (induction ls arbitrary: cv r)
  case Nil
  then show ?case by (simp add: same_canvas_shape_def)
next
  case (Cons l ls)
  from ensure_rows_ok[OF Cons.prems(1), of "r + 1"]
  have e: "cv_ok (ensure_rows cv (r + 1))" "cv_W (ensure_rows cv (r + 1)) = cv_W cv"
    "length (cv_lines cv) \<le> length (cv_lines (ensure_rows cv (r + 1)))"
    "r < int (length (cv_lines (ensure_rows cv (r + 1))))" by auto
  from draw_chars_ok[OF e(1) Cons.prems(2) e(4), of left_col "marked_line bold width_cols l"]
  obtain cv1 where d: "draw_chars (ensure_rows cv (r + 1)) r left_col (marked_line bold width_cols l) = Inr cv1"
    "cv_ok cv1" "cv_W cv1 = cv_W (ensure_rows cv (r + 1))"
    "length (cv_lines cv1) = length (cv_lines (ensure_rows cv (r + 1)))" by auto
  from Cons.IH[OF d(2), of "r + 1"] Cons.prems(2)
  obtain cv2 where "draw_lines cv1 (r + 1) left_col width_cols bold ls = Inr cv2" "same_canvas_shape cv1 cv2"
    by auto
  with d e show ?case by (auto simp: same_canvas_shape_def)
qed

lemma draw_rows_ok:
  "cv_ok cv \<Longrightarrow> 0 \<le> r \<Longrightarrow>
   \<exists>cv'. draw_rows cv r left_col max_w ls = Inr cv' \<and> same_canvas_shape cv cv'"
proof (induction ls arbitrary: cv r)
  case Nil
  then show ?case by (simp add: same_canvas_shape_def)
next
  case (Cons l ls)
  from ensure_rows_ok[OF Cons.prems(1), of "r + 1"]
  have e: "cv_ok (ensure_rows cv (r + 1))" "cv_W (ensure_rows cv (r + 1)) = cv_W cv"
    "length (cv_lines cv) \<le> length (cv_lines (ensure_rows cv (r + 1)))"
    "r < int (length (cv_lines (ensure_rows cv (r + 1))))" by auto
  from draw_chars_ok[OF e(1) Cons.prems(2) e(4), of left_col "py_take max_w l"]
  obtain cv1 where d: "draw_chars (ensure_rows cv (r + 1)) r left_col (py_take max_w l) = Inr cv1"
    "cv_ok cv1" "cv_W cv1 = cv_W (ensure_rows cv (r + 1))"
    "length (cv_lines cv1) = length (cv_lines (ensure_rows cv (r + 1)))" by auto
  from Cons.IH[OF d(2), of "r + 1"] Cons.prems(2)
  obtain cv2 where "draw_rows cv1 (r + 1) left_col max_w ls = Inr cv2" "same_canvas_shape cv1 cv2"
    by auto
  with d e show ?case by (auto simp: same_canvas_shape_def)
qed

lemma draw_text_block_ok:
  "cv_ok cv \<Longrightarrow> 0 \<le> r \<Longrightarrow>
   \<exists>cv'. draw_text_block wr cv r left_col width_cols text bold = Inr cv' \<and> same_canvas_shape cv cv'"
  using draw_lines_ok[of cv r left_col width_cols bold]
  by (auto simp: draw_text_block_def same_canvas_shape_def)

lemma draw_ascii_image_ok:
  "cv_ok cv \<Longrightarrow> 0 \<le> r \<Longrightarrow>
   \<exists>cv'. draw_ascii_image cv r left_col art max_w = Inr cv' \<and> same_canvas_shape cv cv'"
  using draw_rows_ok[of cv r left_col max_w]
  by (auto simp: draw_ascii_image_def same_canvas_shape_def)

subsection \<open>Registration\<close>

lemma index_of_mem:
  "u \<in> set m \<Longrightarrow> \<exists>i. index_of m u = Some i \<and> i < length m \<and> m ! i = u"
  by (induction m) auto

lemma index_of_first:
  "index_of m u = Some i \<Longrightarrow> i < length m \<and> m ! i = u \<and> u \<notin> set (take i m)"
proof (induction m arbitrary: i)
  case Nil
  then show ?case by simp
next
  case (Cons v m)
  show ?case
  proof (cases "v = u")
    case True
    with Cons.prems show ?thesis by simp
  next
    case False
    with Cons.prems obtain j where j: "index_of m u = Some j" "i = Suc j" by auto
    from Cons.IH[OF j(1)] False j(2) show ?thesis by simp
  qed
qed

lemma reg_index_props:
  "1 \<le> reg_index m u \<and> reg_index m u \<le> length (append_new m [u])
   \<and> append_new m [u] ! (reg_index m u - 1) = u
   \<and> index_of (append_new m [u]) u = Some (reg_index m u - 1)"
proof -
  have "u \<in> set (append_new m [u])" by simp
  from index_of_mem[OF this] obtain i where
    "index_of (append_new m [u]) u = Some i" "i < length (append_new m [u])" "append_new m [u] ! i = u"
    by blast
  then show ?thesis unfolding reg_index_def by (simp only: option.case) simp
qed

lemma reg_index_new: "u \<notin> set m \<Longrightarrow> distinct m \<Longrightarrow> reg_index m u = length m + 1"
proof -
  assume a: "u \<notin> set m" "distinct m"
  from reg_index_props[of m u] have i: "index_of (m @ [u]) u = Some (reg_index m u - 1)" "1 \<le> reg_index m u"
    "reg_index m u \<le> length m + 1"
    using a by simp_all
  from index_of_first[OF i(1)] have "(m @ [u]) ! (reg_index m u - 1) = u" by simp
  then have nth: "(m @ [u]) ! (reg_index m u - 1) = u" .
  show ?thesis
  proof (cases "reg_index m u - 1 < length m")
    case True
    then have "(m @ [u]) ! (reg_index m u - 1) = m ! (reg_index m u - 1)" by (simp add: nth_append)
    with nth have "m ! (reg_index m u - 1) = u" by simp
    with nth_mem[OF True] a(1) show ?thesis by simp
  next
    case False
    with i(2,3) show ?thesis by linarith
  qed
qed

lemma reg_ok_append_new: "reg_ok seen m \<Longrightarrow> reg_ok (set (append_new m us)) (append_new m us)"
proof (induction us arbitrary: seen m)
  case Nil
  then show ?case by (simp add: reg_ok_def)
next
  case (Cons u us)
  have "reg_ok (set (if u \<notin> set m then m @ [u] else m)) (if u \<notin> set m then m @ [u] else m)"
    using Cons.prems by (simp add: reg_ok_def)
  from Cons.IH[OF this] show ?case by simp
qed

lemma register_ok:
  assumes "reg_ok seen m"
  shows "register u seen m = Inr (reg_index m u, set (append_new m [u]), append_new m [u])"
proof -
  let ?m = "append_new m [u]"
  have m': "(if u \<notin> seen then m @ [u] else m) = ?m" using assms by (simp add: reg_ok_def)
  have s': "(if u \<notin> seen then insert u seen else seen) = set ?m"
    using assms by (auto simp: reg_ok_def)
  have "register u seen m =
      (case index_of ?m u of None \<Rightarrow> Inl ValueError | Some i \<Rightarrow> Inr (i + 1, set ?m, ?m))"
    unfolding register_def Let_def m' s' by (rule refl)
  also have "index_of ?m u = Some (reg_index m u - 1)" using reg_index_props[of m u] by blast
  finally show ?thesis using reg_index_props[of m u] by (simp only: option.case) simp
qed

subsection \<open>The image branch\<close>

lemma paint_image_unfold:
  assumes "reg_ok (img_seen st) (image_map st)"
  shows "paint_image env self st (x, y, w, h) u =
     bind_err (draw_text_block (wrap env) (rs_canvas st) y x w
                 (image_label (reg_index (image_map st) u)) False) (\<lambda>cv1.
       if budget_left env self st
       then bind_err (draw_ascii_image cv1 (y + 1) x (ascii_for env u) (min w (ASCII_IMG_W env))) (\<lambda>cv2.
              Inr (st\<lparr>img_seen := set (append_new (image_map st) [u]),
                       image_map := append_new (image_map st) [u],
                       rs_canvas := cv2,
                       auto_img_count := auto_img_count st + 1,
                       requested := requested st @ [u]\<rparr>))
       else Inr (st\<lparr>img_seen := set (append_new (image_map st) [u]),
                      image_map := append_new (image_map st) [u],
                      rs_canvas := cv1\<rparr>))"
  unfolding paint_image_def register_ok[OF assms] budget_left_def image_label_def Let_def
  by (simp del: append_new.simps cong: if_cong)

lemma paint_image_frame:
  assumes "paint_image env self st r u = Inr st'" "reg_ok (img_seen st) (image_map st)"
  shows "image_map st' = append_new (image_map st) [u]
    \<and> reg_ok (img_seen st') (image_map st')
    \<and> link_map st' = link_map st \<and> link_seen st' = link_seen st
    \<and> placed_text_rects st' = placed_text_rects st
    \<and> requested st' = requested st @ (if budget_left env self st then [u] else [])
    \<and> auto_img_count st' = auto_img_count st + (if budget_left env self st then 1 else 0)"
proof -
  obtain x y w h where r: "r = (x, y, w, h)" by (cases r) auto
  have ok: "reg_ok (set (append_new (image_map st) [u])) (append_new (image_map st) [u])"
    by (rule reg_ok_append_new[OF assms(2)])
  from assms(1) obtain cv1 where
    rest: "(if budget_left env self st
       then bind_err (draw_ascii_image cv1 (y + 1) x (ascii_for env u) (min w (ASCII_IMG_W env))) (\<lambda>cv2.
              Inr (st\<lparr>img_seen := set (append_new (image_map st) [u]),
                       image_map := append_new (image_map st) [u],
                       rs_canvas := cv2,
                       auto_img_count := auto_img_count st + 1,
                       requested := requested st @ [u]\<rparr>))
       else Inr (st\<lparr>img_seen := set (append_new (image_map st) [u]),
                      image_map := append_new (image_map st) [u],
                      rs_canvas := cv1\<rparr>)) = Inr st'"
    unfolding r paint_image_unfold[OF assms(2)] bind_err_eq_Inr by blast
  show ?thesis
  proof (cases "budget_left env self st")
    case True
    with rest obtain cv2 where "st' = st\<lparr>img_seen := set (append_new (image_map st) [u]),
                       image_map := append_new (image_map st) [u],
                       rs_canvas := cv2,
                       auto_img_count := auto_img_count st + 1,
                       requested := requested st @ [u]\<rparr>"
      by (auto simp: bind_err_eq_Inr simp del: append_new.simps)
    with True ok show ?thesis by (simp del: append_new.simps)
  next
    case False
    with rest have "st' = st\<lparr>img_seen := set (append_new (image_map st) [u]),
                      image_map := append_new (image_map st) [u],
                      rs_canvas := cv1\<rparr>" by (simp del: append_new.simps)
    with False ok show ?thesis by (simp del: append_new.simps)
  qed
qed

lemma paint_image_returns:
  assumes "cv_ok (rs_canvas st)" "reg_ok (img_seen st) (image_map st)" "0 \<le> y"
  shows "\<exists>st'. paint_image env self st (x, y, w, h) u = Inr st'
           \<and> same_canvas_shape (rs_canvas st) (rs_canvas st')"
proof -
  from draw_text_block_ok[OF assms(1,3)] obtain cv1 where
    d1: "draw_text_block (wrap env) (rs_canvas st) y x w (image_label (reg_index (image_map st) u)) False = Inr cv1"
    and s1: "same_canvas_shape (rs_canvas st) cv1" by blast
  from s1 have ok1: "cv_ok cv1" by (simp add: same_canvas_shape_def)
  have y1: "0 \<le> y + 1" using assms(3) by simp
  from draw_ascii_image_ok[OF ok1 y1] obtain cv2 where
    d2: "draw_ascii_image cv1 (y + 1) x (ascii_for env u) (min w (ASCII_IMG_W env)) = Inr cv2"
    and s2: "same_canvas_shape cv1 cv2" by blast
  show ?thesis
    unfolding paint_image_unfold[OF assms(2)] d1 bind_err_Inr d2 using s1 s2
    by (cases "budget_left env self st") (simp_all add: same_canvas_shape_def del: append_new.simps)
qed

subsection \<open>The text branch\<close>

lemma paint_text_skip: "\<not> text_painted st r n \<Longrightarrow> paint_text env self st r n = Inr st"
  by (cases r) (auto simp: paint_text_def text_painted_def Let_def)

lemma paint_text_unfold:
  assumes "text_painted st (x, y, w, h) n" "reg_ok (link_seen st) (link_map st)"
  shows "paint_text env self st (x, y, w, h) n =
     bind_err (draw_text_block (wrap env) (rs_canvas st) y x w (text_label env self st n) (is_bold n))
       (\<lambda>cv1. Inr (st\<lparr>link_seen := set (append_new (link_map st) (link_list env self n)),
                        link_map := append_new (link_map st) (link_list env self n),
                        rs_canvas := cv1,
                        placed_text_rects := placed_text_rects st @ [(x, y, w, h, take 24 (n_txt n))]\<rparr>))"
proof (cases "link_target env self n")
  case None
  then have c: "\<not> (n_href n \<noteq> [] \<and> \<not> (filter_icons self \<and> is_icon_link env (n_href n) (n_txt n)))"
    by (simp add: link_target_def split: if_splits)
  have e: "st\<lparr>link_seen := set (link_map st), link_map := link_map st\<rparr> = st"
    using assms(2) by (simp add: reg_ok_def)
  have "paint_text env self st (x, y, w, h) n =
     bind_err (draw_text_block (wrap env) (rs_canvas st) y x w (n_txt n) (is_bold n))
       (\<lambda>cv1. Inr (st\<lparr>rs_canvas := cv1,
                        placed_text_rects := placed_text_rects st @ [(x, y, w, h, take 24 (n_txt n))]\<rparr>))"
    using assms(1) c unfolding paint_text_def text_painted_def Let_def by auto
  also have "\<dots> = bind_err (draw_text_block (wrap env) (rs_canvas st) y x w (n_txt n) (is_bold n))
       (\<lambda>cv1. Inr ((st\<lparr>link_seen := set (link_map st), link_map := link_map st\<rparr>)\<lparr>rs_canvas := cv1,
                        placed_text_rects := placed_text_rects st @ [(x, y, w, h, take 24 (n_txt n))]\<rparr>))"
    unfolding e by (rule refl)
  finally show ?thesis using None by (simp add: text_label_def link_list_def)
next
  case (Some u)
  then have c: "n_href n \<noteq> [] \<and> \<not> (filter_icons self \<and> is_icon_link env (n_href n) (n_txt n))"
    and u: "u = n_href n"
    by (simp_all add: link_target_def split: if_splits)
  show ?thesis
    using assms(1) c unfolding paint_text_def text_painted_def Let_def register_ok[OF assms(2)]
    by (simp add: text_label_def link_list_def Some u[symmetric] del: append_new.simps)
qed

lemma paint_text_frame:
  assumes "paint_text env self st r n = Inr st'" "reg_ok (link_seen st) (link_map st)"
  shows "image_map st' = image_map st \<and> img_seen st' = img_seen st
    \<and> requested st' = requested st \<and> auto_img_count st' = auto_img_count st
    \<and> reg_ok (link_seen st') (link_map st')
    \<and> (\<not> text_painted st r n \<longrightarrow> st' = st)
    \<and> (text_painted st r n \<longrightarrow>
          placed_text_rects st' = placed_text_rects st @ [placed_record r n]
          \<and> link_map st' = append_new (link_map st) (link_list env self n))"
proof (cases "text_painted st r n")
  case False
  with assms paint_text_skip[OF False, of env self] show ?thesis by simp
next
  case True
  obtain x y w h where r: "r = (x, y, w, h)" by (cases r) auto
  have ok: "reg_ok (set (append_new (link_map st) (link_list env self n)))
              (append_new (link_map st) (link_list env self n))"
    by (rule reg_ok_append_new[OF assms(2)])
  from assms(1) True obtain cv1 where
    "st' = st\<lparr>link_seen := set (append_new (link_map st) (link_list env self n)),
                        link_map := append_new (link_map st) (link_list env self n),
                        rs_canvas := cv1,
                        placed_text_rects := placed_text_rects st @ [(x, y, w, h, take 24 (n_txt n))]\<rparr>"
    unfolding r using paint_text_unfold[OF _ assms(2), of x y w h n env self]
    by (auto simp: bind_err_eq_Inr simp del: append_new.simps)
  with True ok show ?thesis by (simp add: r placed_record_def del: append_new.simps)
qed

lemma paint_text_returns:
  assumes "cv_ok (rs_canvas st)" "reg_ok (link_seen st) (link_map st)" "0 \<le> y"
  shows "\<exists>st'. paint_text env self st (x, y, w, h) n = Inr st'
           \<and> same_canvas_shape (rs_canvas st) (rs_canvas st')"
proof (cases "text_painted st (x, y, w, h) n")
  case False
  with assms(1) paint_text_skip[OF False, of env self] show ?thesis
    by (simp add: same_canvas_shape_def)
next
  case True
  from draw_text_block_ok[OF assms(1,3)] obtain cv1 where
    d1: "draw_text_block (wrap env) (rs_canvas st) y x w (text_label env self st n) (is_bold n) = Inr cv1"
    and s1: "same_canvas_shape (rs_canvas st) cv1" by blast
  show ?thesis
    unfolding paint_text_unfold[OF True assms(2)] d1 bind_err_Inr using s1
    by (simp del: append_new.simps)
qed

lemma zero_le_py_int: "0 \<le> v \<Longrightarrow> 0 \<le> py_int v"
  by (simp add: py_int_def)

lemma append_new_extends: "\<exists>zs. append_new m us = m @ zs"
proof (induction us arbitrary: m)
  case Nil
  then show ?case by simp
next
  case (Cons u us)
  from Cons[of "if u \<notin> set m then m @ [u] else m"] show ?case by (auto split: if_splits)
qed

lemma paint_node_frame:
  assumes "paint_node env self base sx sy st n = Inr st'" "regs_ok st"
  shows "regs_ok st'
    \<and> image_map st' = append_new (image_map st) (case image_source env base n of None \<Rightarrow> [] | Some u \<Rightarrow> [u])
    \<and> requested st' = requested st @
         (case image_source env base n of None \<Rightarrow> [] | Some u \<Rightarrow> if budget_left env self st then [u] else [])
    \<and> auto_img_count st' = auto_img_count st +
         (case image_source env base n of None \<Rightarrow> 0 | Some u \<Rightarrow> if budget_left env self st then 1 else 0)
    \<and> (\<exists>zs. link_map st' = link_map st @ zs)
    \<and> (\<exists>zs. placed_text_rects st' = placed_text_rects st @ zs)"
proof -
  let ?r = "project sx sy n"
  have tframe: "\<And>st1. paint_text env self st1 ?r n = Inr st' \<Longrightarrow> reg_ok (link_seen st1) (link_map st1) \<Longrightarrow>
      image_map st' = image_map st1 \<and> img_seen st' = img_seen st1
      \<and> requested st' = requested st1 \<and> auto_img_count st' = auto_img_count st1
      \<and> reg_ok (link_seen st') (link_map st')
      \<and> (\<exists>zs. link_map st' = link_map st1 @ zs)
      \<and> (\<exists>zs. placed_text_rects st' = placed_text_rects st1 @ zs)"
  proof -
    fix st1 assume a: "paint_text env self st1 ?r n = Inr st'" "reg_ok (link_seen st1) (link_map st1)"
    from paint_text_frame[OF a] append_new_extends[of "link_map st1" "link_list env self n"]
    show "image_map st' = image_map st1 \<and> img_seen st' = img_seen st1
      \<and> requested st' = requested st1 \<and> auto_img_count st' = auto_img_count st1
      \<and> reg_ok (link_seen st') (link_map st')
      \<and> (\<exists>zs. link_map st' = link_map st1 @ zs)
      \<and> (\<exists>zs. placed_text_rects st' = placed_text_rects st1 @ zs)"
      by (cases "text_painted st1 ?r n") auto
  qed
  from assms(2) have ri: "reg_ok (img_seen st) (image_map st)" and rl: "reg_ok (link_seen st) (link_map st)"
    by (simp_all add: regs_ok_def)
  show ?thesis
  proof (cases "is_img_node n")
    case True
    with assms(1) have "paint_image env self st ?r (n_src n) = Inr st'"
      by (simp add: paint_node_def Let_def)
    from paint_image_frame[OF this ri] True rl show ?thesis
      by (auto simp: image_source_def regs_ok_def simp del: append_new.simps)
  next
    case False
    show ?thesis
    proof (cases "has_bg_image n")
      case True
      let ?u = "urljoin env base (bg_url (n_bg n))"
      from assms(1) False True obtain st1 where
        i: "paint_image env self st ?r ?u = Inr st1" and t: "paint_text env self st1 ?r n = Inr st'"
        by (auto simp: paint_node_def Let_def bind_err_eq_Inr)
      note f = paint_image_frame[OF i ri]
      from f rl have rl1: "reg_ok (link_seen st1) (link_map st1)" by simp
      from tframe[OF t rl1] f False True show ?thesis
        by (auto simp: image_source_def regs_ok_def simp del: append_new.simps)
    next
      case nobg: False
      from assms(1) False nobg have t: "paint_text env self st ?r n = Inr st'"
        by (simp add: paint_node_def Let_def)
      from tframe[OF t rl] ri False nobg show ?thesis
        by (auto simp: image_source_def regs_ok_def)
    qed
  qed
qed

lemma paint_node_returns:
  assumes "cv_ok (rs_canvas st)" "regs_ok st" "0 \<le> real_of_int (n_y n) * sy"
  shows "\<exists>st'. paint_node env self base sx sy st n = Inr st' \<and> cv_ok (rs_canvas st')"
proof -
  obtain x y w h where r: "project sx sy n = (x, y, w, h)" by (cases "project sx sy n") auto
  then have y: "0 \<le> y" using zero_le_py_int[OF assms(3)] by (simp add: project_def)
  from assms(2) have ri: "reg_ok (img_seen st) (image_map st)" and rl: "reg_ok (link_seen st) (link_map st)"
    by (simp_all add: regs_ok_def)
  show ?thesis
  proof (cases "is_img_node n")
    case True
    from paint_image_returns[OF assms(1) ri y, of env self x w h "n_src n"] True show ?thesis
      by (auto simp: paint_node_def Let_def r same_canvas_shape_def)
  next
    case False
    show ?thesis
    proof (cases "has_bg_image n")
      case True
      let ?u = "urljoin env base (bg_url (n_bg n))"
      from paint_image_returns[OF assms(1) ri y, of env self x w h ?u] obtain st1 where
        i: "paint_image env self st (x, y, w, h) ?u = Inr st1" and c1: "cv_ok (rs_canvas st1)"
        by (auto simp: same_canvas_shape_def)
      from paint_image_frame[OF i ri] rl have rl1: "reg_ok (link_seen st1) (link_map st1)" by simp
      from paint_text_returns[OF c1 rl1 y, of env self x w h n] False True i show ?thesis
        by (auto simp: paint_node_def Let_def r same_canvas_shape_def)
    next
      case nobg: False
      from paint_text_returns[OF assms(1) rl y, of env self x w h n] False nobg show ?thesis
        by (auto simp: paint_node_def Let_def r same_canvas_shape_def)
    qed
  qed
qed

subsection \<open>One node, and the whole loop\<close>

lemma text_painted_cong:
  "placed_text_rects st1 = placed_text_rects st \<Longrightarrow> text_painted st1 r n = text_painted st r n"
  by (simp add: text_painted_def)

lemma paint_node_effect:
  assumes "paint_node env self base sx sy st n = Inr st'" "regs_ok st"
  shows "regs_ok st'
    \<and> image_map st' = append_new (image_map st) (node_images env base n)
    \<and> requested st' = requested st @ (if budget_left env self st then node_images env base n else [])
    \<and> auto_img_count st' = auto_img_count st
         + int (length (if budget_left env self st then node_images env base n else []))
    \<and> link_map st' = append_new (link_map st)
         (if text_branch_paints sx sy st n then link_list env self n else [])
    \<and> placed_text_rects st' = placed_text_rects st @
         (if text_branch_paints sx sy st n then [placed_record (project sx sy n) n] else [])"
proof -
  let ?r = "project sx sy n"
  from assms(2) have ri: "reg_ok (img_seen st) (image_map st)" and rl: "reg_ok (link_seen st) (link_map st)"
    by (simp_all add: regs_ok_def)
  show ?thesis
  proof (cases "is_img_node n")
    case True
    with assms(1) have "paint_image env self st ?r (n_src n) = Inr st'"
      by (simp add: paint_node_def Let_def)
    from paint_image_frame[OF this ri] True rl show ?thesis
      by (auto simp: image_source_def node_images_def regs_ok_def text_branch_paints_def
          simp del: append_new.simps(2))
  next
    case False
    show ?thesis
    proof (cases "has_bg_image n")
      case True
      let ?u = "urljoin env base (bg_url (n_bg n))"
      from assms(1) False True obtain st1 where
        i: "paint_image env self st ?r ?u = Inr st1" and t: "paint_text env self st1 ?r n = Inr st'"
        by (auto simp: paint_node_def Let_def bind_err_eq_Inr)
      note f = paint_image_frame[OF i ri]
      from f have f1: "image_map st1 = append_new (image_map st) [?u]"
        and f2: "reg_ok (img_seen st1) (image_map st1)"
        and f3: "link_map st1 = link_map st" and f4: "link_seen st1 = link_seen st"
        and f5: "placed_text_rects st1 = placed_text_rects st"
        and f6: "requested st1 = requested st @ (if budget_left env self st then [?u] else [])"
        and f7: "auto_img_count st1 = auto_img_count st + (if budget_left env self st then 1 else 0)"
        by blast+
      from f3 f4 rl have rl1: "reg_ok (link_seen st1) (link_map st1)" by simp
      from f5 have tp: "text_painted st1 ?r n = text_painted st ?r n" by (rule text_painted_cong)
      note g = paint_text_frame[OF t rl1]
      from g have g1: "image_map st' = image_map st1" and g2: "img_seen st' = img_seen st1"
        and g3: "requested st' = requested st1" and g4: "auto_img_count st' = auto_img_count st1"
        and g5: "reg_ok (link_seen st') (link_map st')"
        by blast+
      have ni: "node_images env base n = [?u]" using False True
        by (simp add: node_images_def image_source_def)
      have tb: "text_branch_paints sx sy st n = text_painted st ?r n"
        using False by (simp add: text_branch_paints_def)
      have r1: "regs_ok st'" using g1 g2 f2 g5 by (simp add: regs_ok_def)
      have r2: "image_map st' = append_new (image_map st) (node_images env base n)"
        unfolding ni g1 f1 by (rule refl)
      have r3: "requested st' = requested st @ (if budget_left env self st then node_images env base n else [])"
        unfolding ni g3 f6 by (rule refl)
      have r4: "auto_img_count st' = auto_img_count st
         + int (length (if budget_left env self st then node_images env base n else []))"
        unfolding ni g4 f7 by simp
      have r56: "link_map st' = append_new (link_map st)
           (if text_branch_paints sx sy st n then link_list env self n else [])
         \<and> placed_text_rects st' = placed_text_rects st @
           (if text_branch_paints sx sy st n then [placed_record (project sx sy n) n] else [])"
      proof (cases "text_painted st ?r n")
        case tpT: True
        with g tp have "placed_text_rects st' = placed_text_rects st1 @ [placed_record ?r n]"
          and "link_map st' = append_new (link_map st1) (link_list env self n)" by simp_all
        then show ?thesis unfolding tb f3 f5 using tpT by simp
      next
        case tpF: False
        with g tp have "st' = st1" by simp
        then show ?thesis unfolding tb using tpF f3 f5 by simp
      qed
      from r1 r2 r3 r4 r56 show ?thesis by blast
    next
      case nobg: False
      from assms(1) False nobg have t: "paint_text env self st ?r n = Inr st'"
        by (simp add: paint_node_def Let_def)
      note g = paint_text_frame[OF t rl]
      have ni: "node_images env base n = []" using False nobg
        by (simp add: node_images_def image_source_def)
      show ?thesis
      proof (cases "text_painted st ?r n")
        case True
        with g ri False ni show ?thesis
          by (auto simp: regs_ok_def text_branch_paints_def simp del: append_new.simps(2))
      next
        case tpF: False
        with g have "st' = st" by simp
        with tpF assms(2) ni show ?thesis by (simp add: text_branch_paints_def)
      qed
    qed
  qed
qed

lemma composite_append:
  "composite env self base sx sy st (ns1 @ ns2) =
     bind_err (composite env self base sx sy st ns1) (\<lambda>st1. composite env self base sx sy st1 ns2)"
proof (induction ns1 arbitrary: st)
  case Nil
  then show ?case by simp
next
  case (Cons n ns1)
  then show ?case by (cases "paint_node env self base sx sy st n") simp_all
qed

lemma image_sources_Cons:
  "image_sources env base (n # ns) = node_images env base n @ image_sources env base ns"
  by (simp add: image_sources_def node_images_def List.map_filter_simps split: option.splits)

lemma image_sources_append:
  "image_sources env base (ns1 @ ns2) = image_sources env base ns1 @ image_sources env base ns2"
  by (induction ns1) (simp_all add: image_sources_Cons, simp add: image_sources_def List.map_filter_simps)

lemma append_new_append: "append_new m (us @ vs) = append_new (append_new m us) vs"
  by (induction us arbitrary: m) simp_all

lemma node_images_length: "length (node_images env base n) \<le> 1"
  by (simp add: node_images_def split: option.splits)

lemma attempts_step:
  assumes "length us \<le> 1"
  shows "attempts env self used (us @ srcs) =
     (if auto_image self \<and> used < AUTO_IMG_MAX env then us else []) @
     attempts env self (used + int (length (if auto_image self \<and> used < AUTO_IMG_MAX env then us else []))) srcs"
proof (cases us)
  case Nil
  then show ?thesis by simp
next
  case (Cons u vs)
  with assms have us: "us = [u]" by simp
  show ?thesis
  proof (cases "auto_image self \<and> used < AUTO_IMG_MAX env")
    case True
    then have "nat (AUTO_IMG_MAX env - used) = Suc (nat (AUTO_IMG_MAX env - (used + 1)))" by linarith
    with True show ?thesis by (simp add: attempts_def us)
  next
    case False
    then show ?thesis by (auto simp: attempts_def us)
  qed
qed

lemma composite_effect:
  "composite env self base sx sy st nodes = Inr st' \<Longrightarrow> regs_ok st \<Longrightarrow>
   regs_ok st'
   \<and> image_map st' = append_new (image_map st) (image_sources env base nodes)
   \<and> requested st' = requested st @ attempts env self (auto_img_count st) (image_sources env base nodes)
   \<and> auto_img_count st' = auto_img_count st
        + int (length (attempts env self (auto_img_count st) (image_sources env base nodes)))
   \<and> (\<exists>zs. link_map st' = link_map st @ zs)
   \<and> (\<exists>zs. placed_text_rects st' = placed_text_rects st @ zs)"
proof (induction nodes arbitrary: st)
  case Nil
  then show ?case by (simp add: image_sources_def List.map_filter_simps attempts_def)
next
  case (Cons n ns)
  from Cons.prems(1) obtain st1 where
    p: "paint_node env self base sx sy st n = Inr st1" and c: "composite env self base sx sy st1 ns = Inr st'"
    by (auto simp: bind_err_eq_Inr)
  note e = paint_node_effect[OF p Cons.prems(2)]
  from e have ok1: "regs_ok st1" by simp
  note ih = Cons.IH[OF c ok1]
  note a = attempts_step[OF node_images_length[of env base n], where env = env and self = self
      and used = "auto_img_count st" and srcs = "image_sources env base ns"]
  have bl: "budget_left env self st = (auto_image self \<and> auto_img_count st < AUTO_IMG_MAX env)"
    by (simp add: budget_left_def)
  from append_new_extends[of "link_map st"] e obtain z1 where z1: "link_map st1 = link_map st @ z1"
    by metis
  from ih obtain z2 where z2: "link_map st' = link_map st1 @ z2" by blast
  from e obtain p1 where p1: "placed_text_rects st1 = placed_text_rects st @ p1" by metis
  from ih obtain p2 where p2: "placed_text_rects st' = placed_text_rects st1 @ p2" by blast
  have "image_map st' = append_new (image_map st) (image_sources env base (n # ns))"
    using ih e by (simp add: image_sources_Cons append_new_append del: append_new.simps(2))
  moreover have "requested st' = requested st @ attempts env self (auto_img_count st) (image_sources env base (n # ns))"
    using ih e unfolding image_sources_Cons a bl by simp
  moreover have "auto_img_count st' = auto_img_count st
        + int (length (attempts env self (auto_img_count st) (image_sources env base (n # ns))))"
    using ih e unfolding image_sources_Cons a bl by simp
  moreover have "\<exists>zs. link_map st' = link_map st @ zs" using z1 z2 by simp
  moreover have "\<exists>zs. placed_text_rects st' = placed_text_rects st @ zs" using p1 p2 by simp
  ultimately show ?case using ih by simp
qed

lemma composite_returns:
  "cv_ok (rs_canvas st) \<Longrightarrow> regs_ok st \<Longrightarrow> rows_on_canvas sy nodes \<Longrightarrow>
   \<exists>st'. composite env self base sx sy st nodes = Inr st'"
proof (induction nodes arbitrary: st)
  case Nil
  then show ?case by simp
next
  case (Cons n ns)
  from Cons.prems(3) have y: "0 \<le> real_of_int (n_y n) * sy" and rest: "rows_on_canvas sy ns"
    by (simp_all add: rows_on_canvas_def)
  from paint_node_returns[OF Cons.prems(1,2) y, of env self base sx] obtain st1 where
    p: "paint_node env self base sx sy st n = Inr st1" and c1: "cv_ok (rs_canvas st1)" by blast
  from paint_node_effect[OF p Cons.prems(2)] have ok1: "regs_ok st1" by simp
  from Cons.IH[OF c1 ok1 rest] p show ?case by simp
qed

lemma init_rstate_ok: "regs_ok (init_rstate wd) \<and> cv_ok (rs_canvas (init_rstate wd))"
  by (simp add: regs_ok_def reg_ok_def init_rstate_def cv_ok_def TermCanvas_def)

subsection \<open>The auto-image budget\<close>

lemma image_sources_cong:
  "urljoin env' = urljoin env \<Longrightarrow> image_sources env' base nodes = image_sources env base nodes"
proof -
  assume u: "urljoin env' = urljoin env"
  have "image_source env' base = image_source env base"
    by (rule ext) (simp add: image_source_def u)
  then show ?thesis by (simp add: image_sources_def)
qed

lemma composite_requested:
  assumes "composite env self base sx sy (init_rstate wd) nodes = Inr st"
  shows "requested st = attempts env self 0 (image_sources env base nodes)
    \<and> auto_img_count st = int (length (requested st))"
  using composite_effect[OF assms] init_rstate_ok[of wd] by (simp add: init_rstate_def)


lemma four_images_sources:
  "image_sources sample_env ''http://example.org/'' four_images = [''a.png'', ''b.png'', ''c.png'', ''d.png'']"
  by (simp add: image_sources_def image_source_def four_images_def mk_img_def mk_node_def
      is_img_node_def List.map_filter_simps)


subsection \<open>The registries\<close>

lemma listing_nth:
  "i < length urls \<Longrightarrow> listing urls ! i = ''['' @ str_of_nat (i + 1) @ ''] <'' @ urls ! i @ ''>''"
  by (simp add: listing_def enumerate1_def nth_upt del: upt_Suc)

lemma reg_index_reuse:
  assumes "u \<in> set m"
  shows "append_new m [u] = m \<and> m ! (reg_index m u - 1) = u"
  using assms reg_index_props[of m u] by simp

lemma registered_index_stable:
  assumes ok: "reg_ok seen m" and ext: "final = append_new m [u] @ zs"
  shows "\<exists>k seen' m'. register u seen m = Inr (k, seen', m')
           \<and> 1 \<le> k \<and> k \<le> length final \<and> final ! (k - 1) = u
           \<and> (u \<in> set m \<longrightarrow> m' = m \<and> m ! (k - 1) = u)
           \<and> (u \<notin> set m \<longrightarrow> m' = m @ [u] \<and> k = length m + 1)"
proof -
  let ?k = "reg_index m u"
  note p = reg_index_props[of m u]
  from p have lt: "?k - 1 < length (append_new m [u])" by linarith
  have nthf: "final ! (?k - 1) = u" unfolding ext using lt p by (simp add: nth_append del: append_new.simps)
  have len: "?k \<le> length final" unfolding ext using p by (simp del: append_new.simps)
  have new: "u \<notin> set m \<longrightarrow> ?k = length m + 1" using reg_index_new[of u m] ok by (simp add: reg_ok_def)
  have old: "u \<in> set m \<longrightarrow> m ! (?k - 1) = u" using reg_index_reuse[of u m] by simp
  have am: "u \<in> set m \<longrightarrow> append_new m [u] = m" "u \<notin> set m \<longrightarrow> append_new m [u] = m @ [u]"
    by simp_all
  have "register u seen m = Inr (?k, set (append_new m [u]), append_new m [u])
      \<and> 1 \<le> ?k \<and> ?k \<le> length final \<and> final ! (?k - 1) = u
      \<and> (u \<in> set m \<longrightarrow> append_new m [u] = m \<and> m ! (?k - 1) = u)
      \<and> (u \<notin> set m \<longrightarrow> append_new m [u] = m @ [u] \<and> ?k = length m + 1)"
    using register_ok[OF ok, of u] p nthf len new old am by blast
  then show ?thesis by blast
qed


lemma composite_result:
  "map_sum id f (composite env self base sx sy st0 nodes) = Inr v \<Longrightarrow>
   \<exists>st. composite env self base sx sy st0 nodes = Inr st \<and> f st = v"
  by (cases "composite env self base sx sy st0 nodes") simp_all


end
